theory Spec2Isabelle
  imports Complex_Main "HOL-Library.Signed_Division" "HOL-Library.Monad_Syntax"
    "HOL-Library.Multiset"
begin

section \<open>The log-batch pusher of plugins/outputs/cloudwatchlogs/pusher.go\<close>

subsection \<open>Instants and durations of Go's time package\<close>

text \<open>
  A \<open>time.Time\<close> is modelled by the instant it denotes: whole nanoseconds relative to the
  Unix epoch, unbounded. The zero value of \<open>time.Time\<close> is January 1 of year 1, 00:00 UTC,
  which lies 62135596800 seconds before the epoch. A \<open>time.Duration\<close> is an int64 count
  of nanoseconds; \<open>Time.Sub\<close> saturates at the smallest and largest duration, and
  \<open>Time.UnixNano\<close> computes in int64 and therefore wraps (Go documents its result as
  undefined outside the years 1678 to 2262). Monotonic clock readings are left out: the event
  times compared here carry none.
\<close>

type_synonym instant = int
type_synonym Duration = int

definition zeroInstant :: instant where
  "zeroInstant = - 62135596800 * 1000000000"

definition IsZero :: "instant \<Rightarrow> bool" where
  "IsZero t = (t = zeroInstant)"

definition int64 :: "int \<Rightarrow> int" where
  "int64 k = (k + 2 ^ 63) mod 2 ^ 64 - 2 ^ 63"

definition UnixNano :: "instant \<Rightarrow> int" where
  "UnixNano t = int64 t"

definition minDuration :: Duration where
  "minDuration = - (2 ^ 63)"

definition maxDuration :: Duration where
  "maxDuration = 2 ^ 63 - 1"

definition Sub :: "instant \<Rightarrow> instant \<Rightarrow> Duration" where
  "Sub t u = (let d = t - u in
     if d < minDuration then minDuration
     else if maxDuration < d then maxDuration
     else d)"

definition Hour :: Duration where
  "Hour = 60 * 60 * 1000000000"

text \<open>
  \<open>Duration.Hours\<close> returns a float64. It is modelled by the exact quotient. A duration is a
  whole number of nanoseconds, one nanosecond is about 2.8e-13 hours, and the float64 values
  next to 336 and to -2 are less than 6e-14 apart, so the float64 result compares with
  \<open>24*14\<close> and with \<open>-2\<close> exactly as the quotient does.
\<close>

definition Hours :: "Duration \<Rightarrow> real" where
  "Hours d = real_of_int d / real_of_int Hour"

definition After :: "instant \<Rightarrow> instant \<Rightarrow> bool" where
  "After t u = (u < t)"

definition Before :: "instant \<Rightarrow> instant \<Rightarrow> bool" where
  "Before t u = (t < u)"

subsection \<open>Data\<close>

text \<open>
  A producer's event (the interface \<open>logs.LogEvent\<close> with its methods \<open>Message()\<close>,
  \<open>Time()\<close> and \<open>Done()\<close>). A done callback is an opaque closure; it is modelled by an
  identifier, and invoking it appends the identifier to the field \<open>invoked\<close> of the pusher.
  Go strings are byte strings, as \<open>string\<close> is here.
\<close>

type_synonym callback = nat

record LogEvent =
  ev_Message :: string
  ev_Time :: instant
  ev_Done :: callback

record InputLogEvent =
  Message :: string
  Timestamp :: int

record PutLogEventsInput =
  LogEvents :: "InputLogEvent list"
  LogGroupName :: string
  LogStreamName :: string
  SequenceToken :: "string option"

text \<open>
  \<open>RejectedLogEventsInfo\<close> of the output only makes \<open>send\<close> print warnings, so the output
  is modelled by its \<open>NextSequenceToken\<close>. Log lines and \<open>runtime.GC()\<close> are not modelled.
\<close>

record PutLogEventsOutput =
  NextSequenceToken :: "string option"

text \<open>
  Errors: \<open>send\<close> first asks whether the error is an \<open>awserr.Error\<close> and then switches on
  its concrete type.
\<close>

datatype awsError =
    ResourceNotFoundException
  | InvalidSequenceTokenException "string option"
  | OtherAwsError string

datatype error = NonAwsError | AwsError awsError

fun Code :: "awsError \<Rightarrow> string" where
  "Code ResourceNotFoundException = ''ResourceNotFoundException''"
| "Code (InvalidSequenceTokenException _) = ''InvalidSequenceTokenException''"
| "Code (OtherAwsError c) = c"

definition ErrCodeResourceAlreadyExistsException :: string where
  "ErrCodeResourceAlreadyExistsException = ''ResourceAlreadyExistsException''"

datatype serviceCall =
    PutLogEventsCall PutLogEventsInput
  | CreateLogGroupCall string
  | CreateLogStreamCall string string

text \<open>
  The sink behind the interface \<open>CloudWatchLogsService\<close> is any implementation. It is
  modelled by a script: for each of the three operations the replies it is going to give, in
  order, and the record of the calls it has received. A call on an exhausted script has no
  reply (\<open>None\<close>): the caller is still waiting for the sink.
\<close>

record CloudWatchLogsService =
  putLogEventsReplies :: "(error + PutLogEventsOutput) list"
  createLogGroupReplies :: "error option list"
  createLogStreamReplies :: "error option list"
  calls :: "serviceCall list"

definition PutLogEvents ::
  "CloudWatchLogsService \<Rightarrow> PutLogEventsInput
    \<Rightarrow> ((error + PutLogEventsOutput) \<times> CloudWatchLogsService) option" where
  "PutLogEvents svc input =
     (case putLogEventsReplies svc of
        [] \<Rightarrow> None
      | r # rs \<Rightarrow> Some (r, svc\<lparr>putLogEventsReplies := rs,
                                calls := calls svc @ [PutLogEventsCall input]\<rparr>))"

definition CreateLogGroup ::
  "CloudWatchLogsService \<Rightarrow> string \<Rightarrow> (error option \<times> CloudWatchLogsService) option" where
  "CreateLogGroup svc g =
     (case createLogGroupReplies svc of
        [] \<Rightarrow> None
      | r # rs \<Rightarrow> Some (r, svc\<lparr>createLogGroupReplies := rs,
                                calls := calls svc @ [CreateLogGroupCall g]\<rparr>))"

definition CreateLogStream ::
  "CloudWatchLogsService \<Rightarrow> string \<Rightarrow> string
    \<Rightarrow> (error option \<times> CloudWatchLogsService) option" where
  "CreateLogStream svc g s =
     (case createLogStreamReplies svc of
        [] \<Rightarrow> None
      | r # rs \<Rightarrow> Some (r, svc\<lparr>createLogStreamReplies := rs,
                                calls := calls svc @ [CreateLogStreamCall g s]\<rparr>))"

text \<open>
  The struct \<open>pusher\<close>. \<open>eventsCh\<close> is the buffered channel, oldest event first;
  \<open>flushTimer\<close> tells whether the timer has been armed since it last fired; \<open>invoked\<close> lists the done callbacks that
  have been run, in order. \<open>FlushTimeout\<close>, \<open>ctx\<close> and \<open>cancelFn\<close> do not appear: the
  order in which the dispatcher sees its three sources is given from outside.
\<close>

record pusher =
  Group :: string
  Stream :: string
  Service :: CloudWatchLogsService
  events :: "InputLogEvent list"
  minT :: "instant option"
  maxT :: "instant option"
  doneCallbacks :: "callback list"
  eventsCh :: "LogEvent list"
  bufferredSize :: nat
  flushTimer :: bool
  sequenceToken :: "string option"
  lastValidTime :: int
  needSort :: bool
  invoked :: "callback list"

definition reqSizeLimit :: nat where
  "reqSizeLimit = 1024 * 1024"

definition reqEventsLimit :: nat where
  "reqEventsLimit = 10000"

definition eventsChCap :: nat where
  "eventsChCap = 100"

text \<open>
  pusher.go uses three constants of its package that it does not declare:
  \<open>msgSizeLimit\<close>, \<open>truncatedSuffix\<close> and \<open>eventHeaderSize\<close>. They are parameters.
\<close>

record package_constants =
  msgSizeLimit :: nat
  truncatedSuffix :: string
  eventHeaderSize :: nat

subsection \<open>Operations\<close>

definition NewPusher :: "string \<Rightarrow> string \<Rightarrow> CloudWatchLogsService \<Rightarrow> pusher" where
  "NewPusher g s service =
     \<lparr>Group = g, Stream = s, Service = service,
      events = [], minT = None, maxT = None, doneCallbacks = [], eventsCh = [],
      bufferredSize = 0, flushTimer = True, sequenceToken = None, lastValidTime = 0,
      needSort = False, invoked = []\<rparr>"

definition hasValidTime :: "LogEvent \<Rightarrow> instant \<Rightarrow> bool" where
  "hasValidTime e now =
     (if \<not> IsZero (ev_Time e) then
        (let dt = Hours (Sub now (ev_Time e)) in
         if dt > 24 * 14 \<or> dt < - 2 then False else True)
      else True)"

text \<open>
  \<open>AddEvent\<close> blocks while the channel is full; the blocked call has no result.
\<close>

definition AddEvent :: "LogEvent \<Rightarrow> instant \<Rightarrow> pusher \<Rightarrow> pusher option" where
  "AddEvent e now p =
     (if \<not> hasValidTime e now then Some p
      else if length (eventsCh p) < eventsChCap then Some (p\<lparr>eventsCh := eventsCh p @ [e]\<rparr>)
      else None)"

text \<open>
  The loop of \<open>AddEventNonBlocking\<close> as it runs when no other goroutine touches the channel
  during the call: the send succeeds when there is room, otherwise one event is received from
  the channel and the loop goes round again. This is one step of an execution of \<open>start\<close>
  below. It is not all the loop can do: \<open>nonBlockingLoop\<close> below runs it among the other
  goroutines.
\<close>

function drain :: "LogEvent \<Rightarrow> LogEvent list \<Rightarrow> LogEvent list option" where
  "drain e ch =
     (if length ch < eventsChCap then Some (ch @ [e])
      else (case ch of [] \<Rightarrow> None | _ # rest \<Rightarrow> drain e rest))"
  by pat_completeness auto
termination
  by (relation "measure (\<lambda>(e, ch). length ch)") auto

declare drain.simps [simp del]

definition AddEventNonBlocking :: "LogEvent \<Rightarrow> instant \<Rightarrow> pusher \<Rightarrow> pusher option" where
  "AddEventNonBlocking e now p =
     (if \<not> hasValidTime e now then Some p
      else map_option (\<lambda>ch. p\<lparr>eventsCh := ch\<rparr>) (drain e (eventsCh p)))"

text \<open>
  The same loop among the other goroutines. \<open>NewPusher\<close> starts the dispatcher, which
  receives from the same channel, and other producers send to it. The loop has two steps, the
  \<open>select\<close> with its non-blocking send and the receive from the channel in the
  \<open>default\<close> branch; the list gives, for each step the loop takes, what the others do to the
  channel before it (a receive of the dispatcher from an empty channel and a send to a full
  one do not happen). The receive of the loop blocks while the channel is empty and goes on
  when somebody has sent. When the list is used up nobody else acts any more: from the
  \<open>select\<close> the loop runs on as \<open>drain\<close>, and at the receive on an empty channel the
  producer stays blocked (\<open>None\<close>). The function works on the channel alone.
\<close>

datatype interference = DispatcherReceives | ProducerSends LogEvent

fun interfere :: "interference \<Rightarrow> LogEvent list \<Rightarrow> LogEvent list" where
  "interfere DispatcherReceives ch = (case ch of [] \<Rightarrow> [] | _ # rest \<Rightarrow> rest)"
| "interfere (ProducerSends e') ch = (if length ch < eventsChCap then ch @ [e'] else ch)"

datatype loopStep = AtSelect | AtReceive

fun nonBlockingLoop ::
  "loopStep \<Rightarrow> LogEvent \<Rightarrow> interference list list \<Rightarrow> LogEvent list
     \<Rightarrow> LogEvent list option" where
  "nonBlockingLoop AtSelect e [] ch = drain e ch"
| "nonBlockingLoop AtReceive e [] ch =
     (case ch of [] \<Rightarrow> None | _ # rest \<Rightarrow> drain e rest)"
| "nonBlockingLoop AtSelect e (others # sched) ch =
     (let ch = fold interfere others ch
      in if length ch < eventsChCap then Some (ch @ [e])
         else nonBlockingLoop AtReceive e sched ch)"
| "nonBlockingLoop AtReceive e (others # sched) ch =
     (let ch = fold interfere others ch
      in case ch of
           [] \<Rightarrow> nonBlockingLoop AtReceive e sched []
         | _ # rest \<Rightarrow> nonBlockingLoop AtSelect e sched rest)"

definition AddEventNonBlockingAmong ::
  "interference list list \<Rightarrow> LogEvent \<Rightarrow> instant \<Rightarrow> LogEvent list
     \<Rightarrow> LogEvent list option" where
  "AddEventNonBlockingAmong sched e now ch =
     (if \<not> hasValidTime e now then Some ch else nonBlockingLoop AtSelect e sched ch)"

definition reset :: "pusher \<Rightarrow> pusher" where
  "reset p = p\<lparr>events := [], doneCallbacks := [], bufferredSize := 0, needSort := False,
               minT := None, maxT := None\<rparr>"

definition resetFlushTimer :: "pusher \<Rightarrow> pusher" where
  "resetFlushTimer p = p\<lparr>flushTimer := True\<rparr>"

text \<open>
  The result is the error of the creation, if any. \<open>CreateLogStream\<close> is not called when
  \<open>CreateLogGroup\<close> failed with anything but "already exists".
\<close>

definition createLogGroupAndStream :: "pusher \<Rightarrow> (error option \<times> pusher) option" where
  "createLogGroupAndStream p =
     (case CreateLogGroup (Service p) (Group p) of
        None \<Rightarrow> None
      | Some (err, svc) \<Rightarrow>
          (let p1 = p\<lparr>Service := svc\<rparr>;
               giveUp = (case err of
                           None \<Rightarrow> False
                         | Some NonAwsError \<Rightarrow> True
                         | Some (AwsError awsErr) \<Rightarrow>
                             Code awsErr \<noteq> ErrCodeResourceAlreadyExistsException)
           in if giveUp then Some (err, p1)
              else (case CreateLogStream (Service p1) (Group p1) (Stream p1) of
                      None \<Rightarrow> None
                    | Some (err2, svc2) \<Rightarrow> Some (err2, p1\<lparr>Service := svc2\<rparr>))))"

text \<open>
  \<open>sort.Stable(ByTimestamp(p.events))\<close> sorts the slice of the pusher in place, by \<open><\<close> on
  the timestamps and keeping the order of equal ones: that is \<open>sort_key Timestamp\<close>.
\<close>

definition sortEvents :: "pusher \<Rightarrow> pusher" where
  "sortEvents p = (if needSort p then p\<lparr>events := sort_key Timestamp (events p)\<rparr> else p)"

definition request :: "pusher \<Rightarrow> PutLogEventsInput" where
  "request p = \<lparr>LogEvents = events p, LogGroupName = Group p, LogStreamName = Stream p,
                SequenceToken = sequenceToken p\<rparr>"

lemma PutLogEvents_shorter:
  "PutLogEvents svc i = Some (r, svc') \<Longrightarrow>
     length (putLogEventsReplies svc') < length (putLogEventsReplies svc)"
  by (auto simp: PutLogEvents_def split: list.splits)

lemma createLogGroupAndStream_putReplies:
  "createLogGroupAndStream p = Some (r, p') \<Longrightarrow>
     putLogEventsReplies (Service p') = putLogEventsReplies (Service p)"
  by (auto simp: createLogGroupAndStream_def CreateLogGroup_def CreateLogStream_def Let_def
           split: option.splits list.splits if_splits)

function send :: "pusher \<Rightarrow> pusher option" where
  "send p0 =
     (let p = sortEvents p0 in
      case PutLogEvents (Service p) (request p) of
        None \<Rightarrow> None
      | Some (reply, svc) \<Rightarrow>
          (let p = p\<lparr>Service := svc\<rparr> in
           case reply of
             Inr output \<Rightarrow>
               (let p = (if NextSequenceToken output \<noteq> None
                         then p\<lparr>sequenceToken := NextSequenceToken output\<rparr> else p);
                    p = p\<lparr>invoked := invoked p @ doneCallbacks p\<rparr>
                in Some (reset p))
           | Inl NonAwsError \<Rightarrow> Some (reset p)
           | Inl (AwsError ResourceNotFoundException) \<Rightarrow>
               (case createLogGroupAndStream p of
                  None \<Rightarrow> None
                | Some (Some err, p') \<Rightarrow> Some p'
                | Some (None, p') \<Rightarrow> send p')
           | Inl (AwsError (InvalidSequenceTokenException expected)) \<Rightarrow>
               (case expected of
                  None \<Rightarrow> Some p
                | Some tok \<Rightarrow> send (p\<lparr>sequenceToken := Some tok\<rparr>))
           | Inl (AwsError (OtherAwsError c)) \<Rightarrow> Some (reset p)))"
  by pat_completeness auto
termination
proof (relation "measure (\<lambda>p. length (putLogEventsReplies (Service p)))", goal_cases)
  case 1
  show ?case by simp
next
  case (2 p0 x x2 xa y xb a x2a x2b xc ya)
  then have "length (putLogEventsReplies y) < length (putLogEventsReplies (Service x))"
    and "putLogEventsReplies (Service ya) = putLogEventsReplies y"
    and "Service x = Service p0"
    using PutLogEvents_shorter [of "Service x" "request x" xa y]
      createLogGroupAndStream_putReplies [of xb xc ya]
    by (auto simp: sortEvents_def)
  then show ?case by simp
next
  case (3 p0 x x2 xa y xb a x2a x2b x2c)
  then have "length (putLogEventsReplies y) < length (putLogEventsReplies (Service x))"
    and "Service x = Service p0"
    using PutLogEvents_shorter [of "Service x" "request x" xa y]
    by (auto simp: sortEvents_def)
  with 3 show ?case by simp
qed

declare send.simps [simp del]

text \<open>
  \<open>convertEvent\<close> returns the wire event and the pusher with \<open>lastValidTime\<close> updated.
  \<open>now\<close> is what \<open>time.Now()\<close> returns. Go's \<open>/\<close> on integers truncates towards zero
  (\<open>sdiv\<close>). The slice bound \<open>msgSizeLimit-len(truncatedSuffix)\<close> is a constant expression,
  which Go compiles only when it is not negative.
\<close>

definition convertEvent ::
  "package_constants \<Rightarrow> LogEvent \<Rightarrow> instant \<Rightarrow> pusher \<Rightarrow> InputLogEvent \<times> pusher" where
  "convertEvent K e now p =
     (let message = ev_Message e;
          message = (if length message > msgSizeLimit K
                     then take (msgSizeLimit K - length (truncatedSuffix K)) message
                            @ truncatedSuffix K
                     else message)
      in if IsZero (ev_Time e) then
           (if lastValidTime p \<noteq> 0
            then (\<lparr>Message = message, Timestamp = lastValidTime p\<rparr>, p)
            else (\<lparr>Message = message, Timestamp = UnixNano now sdiv 1000000\<rparr>, p))
         else
           (let t = UnixNano (ev_Time e) sdiv 1000000
            in (\<lparr>Message = message, Timestamp = t\<rparr>, p\<lparr>lastValidTime := t\<rparr>)))"

text \<open>
  The loop \<open>start\<close> waits on three sources. Its three branches follow; \<open>start_event\<close> is
  the branch for an event \<open>e\<close> received from the channel.
\<close>

definition spanExceeded :: "pusher \<Rightarrow> instant \<Rightarrow> bool" where
  "spanExceeded p et =
     ((case minT p of None \<Rightarrow> False | Some m \<Rightarrow> Sub et m > 24 * Hour) \<or>
      (case maxT p of None \<Rightarrow> False | Some m \<Rightarrow> Sub m et > 24 * Hour))"

definition append_event :: "LogEvent \<Rightarrow> InputLogEvent \<Rightarrow> nat \<Rightarrow> pusher \<Rightarrow> pusher" where
  "append_event e ce sz p =
     (let et = ev_Time e;
          p = (if length (events p) > 0 \<and> Timestamp ce < Timestamp (last (events p))
               then p\<lparr>needSort := True\<rparr> else p);
          p = p\<lparr>events := events p @ [ce]\<rparr>;
          p = p\<lparr>doneCallbacks := doneCallbacks p @ [ev_Done e]\<rparr>;
          p = p\<lparr>bufferredSize := bufferredSize p + sz\<rparr>;
          p = (case minT p of
                 None \<Rightarrow> p\<lparr>minT := Some et\<rparr>
               | Some m \<Rightarrow> if After m et then p\<lparr>minT := Some et\<rparr> else p);
          p = (case maxT p of
                 None \<Rightarrow> p\<lparr>maxT := Some et\<rparr>
               | Some m \<Rightarrow> if Before m et then p\<lparr>maxT := Some et\<rparr> else p)
      in p)"

definition start_event ::
  "package_constants \<Rightarrow> LogEvent \<Rightarrow> instant \<Rightarrow> pusher \<Rightarrow> pusher option" where
  "start_event K e now p =
     (let p = (if length (events p) = 0 then resetFlushTimer p else p);
          et = ev_Time e
      in do {
        p \<leftarrow> (if spanExceeded p et then send p else Some p);
        let (ce, p) = convertEvent K e now p;
        let sz = length (Message ce) + eventHeaderSize K;
        p \<leftarrow> (if bufferredSize p + sz > reqSizeLimit \<or> length (events p) = reqEventsLimit
              then send p else Some p);
        Some (append_event e ce sz p)
      })"

definition flush :: "pusher \<Rightarrow> pusher option" where
  "flush p = (if length (events p) > 0 then send p else Some p)"

text \<open>
  An execution is given by what happens in which order: producers calling the two ingress
  functions (with the clock reading of the call), and the dispatcher taking one of its three
  branches. The receive branch can only be taken when the channel holds an event. The timer
  branch may be taken at any point: time is not modelled, and since \<open>resetFlushTimer\<close> does
  not drain the timer's channel, an expiry from before a reset can still be delivered after it.
  With \<open>CtxDone\<close> the loop returns and the execution is over.
\<close>

datatype occurrence =
    CallAddEvent LogEvent instant
  | CallAddEventNonBlocking LogEvent instant
  | RecvEvent instant
  | TimerFires
  | CtxDone

fun start :: "package_constants \<Rightarrow> occurrence list \<Rightarrow> pusher \<Rightarrow> pusher option" where
  "start K [] p = Some p"
| "start K (CallAddEvent e now # rest) p = AddEvent e now p \<bind> start K rest"
| "start K (CallAddEventNonBlocking e now # rest) p =
     AddEventNonBlocking e now p \<bind> start K rest"
| "start K (RecvEvent now # rest) p =
     (case eventsCh p of
        [] \<Rightarrow> None
      | e # ch \<Rightarrow> start_event K e now (p\<lparr>eventsCh := ch\<rparr>) \<bind> start K rest)"
| "start K (TimerFires # rest) p =
     flush (p\<lparr>flushTimer := False\<rparr>) \<bind> start K rest"
| "start K (CtxDone # rest) p = flush p"

subsection \<open>Notions used in the statements\<close>

text \<open>
  \<open>afterPut p\<close> is the pusher at the moment the \<open>PutLogEvents\<close> call of \<open>send p\<close> has
  returned: the events sorted if \<open>needSort\<close> was set, the request recorded by the sink and
  the reply taken off the script.
\<close>

definition afterPut :: "pusher \<Rightarrow> pusher" where
  "afterPut p = (sortEvents p)\<lparr>Service := (Service p)\<lparr>
       putLogEventsReplies := tl (putLogEventsReplies (Service p)),
       calls := calls (Service p) @ [PutLogEventsCall (request (sortEvents p))]\<rparr>\<rparr>"

text \<open>A sink whose creations succeed once, and a pusher with two buffered events that were
  appended out of order.\<close>

definition sampleService :: "(error + PutLogEventsOutput) list \<Rightarrow> CloudWatchLogsService" where
  "sampleService rs = \<lparr>putLogEventsReplies = rs, createLogGroupReplies = [None],
                        createLogStreamReplies = [None], calls = []\<rparr>"

definition samplePusher :: "(error + PutLogEventsOutput) list \<Rightarrow> pusher" where
  "samplePusher rs = (NewPusher ''g'' ''s'' (sampleService rs))\<lparr>
      events := [\<lparr>Message = ''b'', Timestamp = 2\<rparr>, \<lparr>Message = ''a'', Timestamp = 1\<rparr>],
      minT := Some 1000000, maxT := Some 2000000, doneCallbacks := [7, 8],
      bufferredSize := 54, sequenceToken := Some ''t0'', lastValidTime := 2, needSort := True\<rparr>"

text \<open>The constants of the package as the specification gives them (the text of the suffix
  is a sample), for concrete runs.\<close>

definition sampleK :: package_constants where
  "sampleK = \<lparr>msgSizeLimit = 262144, truncatedSuffix = ''[Truncated...]'', eventHeaderSize = 26\<rparr>"

text \<open>The conversions a pusher has made, oldest first, each with the clock reading of its
  \<open>time.Now()\<close>.\<close>

fun convertAll :: "package_constants \<Rightarrow> (LogEvent \<times> instant) list \<Rightarrow> pusher \<Rightarrow> pusher" where
  "convertAll K [] p = p"
| "convertAll K ((e, now) # h) p = convertAll K h (snd (convertEvent K e now p))"

definition validTimes :: "(LogEvent \<times> instant) list \<Rightarrow> instant list" where
  "validTimes h = filter (\<lambda>t. \<not> IsZero t) (map (\<lambda>(e, now). ev_Time e) h)"

text \<open>
  The order kept by the dispatcher: unless \<open>needSort\<close> is set the buffered events are in
  non-decreasing order of timestamp, and every \<open>PutLogEvents\<close> request the sink has
  received was.
\<close>

fun sortedCall :: "serviceCall \<Rightarrow> bool" where
  "sortedCall (PutLogEventsCall i) = sorted (map Timestamp (LogEvents i))"
| "sortedCall (CreateLogGroupCall g) = True"
| "sortedCall (CreateLogStreamCall g s) = True"

definition ordered :: "pusher \<Rightarrow> bool" where
  "ordered p = ((needSort p \<or> sorted (map Timestamp (events p))) \<and>
                list_all sortedCall (calls (Service p)))"

text \<open>
  What a recorded call carried: its bytes as \<open>start\<close> counts them (message length plus
  \<open>eventHeaderSize\<close> for each event), and its timestamps. Two executions follow: five events
  of 250000 bytes each, and two events 25 hours apart with the timer firing in between.
\<close>

fun requestBytes :: "package_constants \<Rightarrow> serviceCall \<Rightarrow> nat" where
  "requestBytes K (PutLogEventsCall i) =
     sum_list (map (\<lambda>ce. length (Message ce) + eventHeaderSize K) (LogEvents i))"
| "requestBytes K (CreateLogGroupCall g) = 0"
| "requestBytes K (CreateLogStreamCall g s) = 0"

fun requestTimestamps :: "serviceCall \<Rightarrow> int list" where
  "requestTimestamps (PutLogEventsCall i) = map Timestamp (LogEvents i)"
| "requestTimestamps (CreateLogGroupCall g) = []"
| "requestTimestamps (CreateLogStreamCall g s) = []"

definition bigEvent :: "callback \<Rightarrow> LogEvent" where
  "bigEvent d = \<lparr>ev_Message = replicate 250000 CHR ''x'', ev_Time = 1700000000000000000,
                 ev_Done = d\<rparr>"

definition fiveBigEvents :: "occurrence list" where
  "fiveBigEvents =
     [CallAddEvent (bigEvent 11) 1700000000000000000, RecvEvent 1700000000000000000,
      CallAddEvent (bigEvent 12) 1700000000000000000, RecvEvent 1700000000000000000,
      CallAddEvent (bigEvent 13) 1700000000000000000, RecvEvent 1700000000000000000,
      CallAddEvent (bigEvent 14) 1700000000000000000, RecvEvent 1700000000000000000,
      CallAddEvent (bigEvent 15) 1700000000000000000, RecvEvent 1700000000000000000]"

definition twoDistantEvents :: "occurrence list" where
  "twoDistantEvents =
     [CallAddEvent \<lparr>ev_Message = ''a'', ev_Time = 1700000000000000000, ev_Done = 10\<rparr>
        1700000000000000000,
      RecvEvent 1700000000000000000,
      TimerFires,
      CallAddEvent \<lparr>ev_Message = ''b'', ev_Time = 1700000000000000000 + 25 * Hour,
                     ev_Done = 20\<rparr>
        (1700000000000000000 + 25 * Hour),
      RecvEvent (1700000000000000000 + 25 * Hour)]"

text \<open>
  For the bounds: a sink none of whose replies makes \<open>send\<close> return with the buffer kept
  (no \<open>InvalidSequenceTokenException\<close> without an expected token, every creation of the
  group succeeds or finds it, every creation of the stream succeeds); a pusher within the
  size, count and span limits; a pusher whose buffer is empty.
\<close>

fun groupCreated :: "error option \<Rightarrow> bool" where
  "groupCreated None = True"
| "groupCreated (Some NonAwsError) = False"
| "groupCreated (Some (AwsError a)) = (Code a = ErrCodeResourceAlreadyExistsException)"

definition clearing :: "CloudWatchLogsService \<Rightarrow> bool" where
  "clearing svc =
     (list_all (\<lambda>r. r \<noteq> Inl (AwsError (InvalidSequenceTokenException None)))
        (putLogEventsReplies svc) \<and>
      list_all groupCreated (createLogGroupReplies svc) \<and>
      list_all (\<lambda>r. r = None) (createLogStreamReplies svc))"

definition inBounds :: "pusher \<Rightarrow> bool" where
  "inBounds p =
     (bufferredSize p \<le> reqSizeLimit \<and> length (events p) \<le> reqEventsLimit \<and>
      (case minT p of
         None \<Rightarrow> maxT p = None
       | Some a \<Rightarrow> (case maxT p of None \<Rightarrow> False | Some b \<Rightarrow> a \<le> b \<and> b - a \<le> 24 * Hour)))"

definition cleared :: "pusher \<Rightarrow> bool" where
  "cleared p = (events p = [] \<and> bufferredSize p = 0 \<and> minT p = None \<and> maxT p = None)"

definition safe :: "pusher \<Rightarrow> bool" where
  "safe p = (inBounds p \<and> clearing (Service p))"

subsection \<open>Basic facts\<close>

lemma Service_sortEvents [simp]: "Service (sortEvents p) = Service p"
  by (simp add: sortEvents_def)

lemma sortEvents_fields [simp]:
  "doneCallbacks (sortEvents p) = doneCallbacks p" "bufferredSize (sortEvents p) = bufferredSize p"
  "needSort (sortEvents p) = needSort p" "minT (sortEvents p) = minT p"
  "maxT (sortEvents p) = maxT p" "invoked (sortEvents p) = invoked p"
  "sequenceToken (sortEvents p) = sequenceToken p" "lastValidTime (sortEvents p) = lastValidTime p"
  "eventsCh (sortEvents p) = eventsCh p" "flushTimer (sortEvents p) = flushTimer p"
  "Group (sortEvents p) = Group p" "Stream (sortEvents p) = Stream p"
  by (simp_all add: sortEvents_def)

lemma mset_events_sortEvents [simp]: "mset (events (sortEvents p)) = mset (events p)"
  by (simp add: sortEvents_def)

lemma reset_fields [simp]:
  "events (reset p) = []" "doneCallbacks (reset p) = []" "bufferredSize (reset p) = 0"
  "needSort (reset p) = False" "minT (reset p) = None" "maxT (reset p) = None"
  "invoked (reset p) = invoked p" "Service (reset p) = Service p"
  "sequenceToken (reset p) = sequenceToken p" "lastValidTime (reset p) = lastValidTime p"
  "eventsCh (reset p) = eventsCh p" "flushTimer (reset p) = flushTimer p"
  "Group (reset p) = Group p" "Stream (reset p) = Stream p"
  by (simp_all add: reset_def)

lemma afterPut_fields [simp]:
  "events (afterPut p) = events (sortEvents p)"
  "doneCallbacks (afterPut p) = doneCallbacks p" "bufferredSize (afterPut p) = bufferredSize p"
  "needSort (afterPut p) = needSort p" "minT (afterPut p) = minT p" "maxT (afterPut p) = maxT p"
  "invoked (afterPut p) = invoked p"
  "sequenceToken (afterPut p) = sequenceToken p" "lastValidTime (afterPut p) = lastValidTime p"
  "eventsCh (afterPut p) = eventsCh p" "flushTimer (afterPut p) = flushTimer p"
  "Group (afterPut p) = Group p" "Stream (afterPut p) = Stream p"
  "putLogEventsReplies (Service (afterPut p)) = tl (putLogEventsReplies (Service p))"
  "calls (Service (afterPut p)) = calls (Service p) @ [PutLogEventsCall (request (sortEvents p))]"
  by (simp_all add: afterPut_def sortEvents_def)

lemma events_sortEvents_afterPut [simp]:
  "events (sortEvents (afterPut p)) = events (sortEvents p)"
  by (simp add: sortEvents_def sort_key_id_if_sorted)

text \<open>One round of \<open>send\<close>, by the reply of the sink.\<close>

lemma send_unfold:
  assumes "putLogEventsReplies (Service p) = r # rs"
  shows "send p =
     (case r of
        Inr output \<Rightarrow>
          Some (reset ((if NextSequenceToken output \<noteq> None
                        then (afterPut p)\<lparr>sequenceToken := NextSequenceToken output\<rparr>
                        else afterPut p)\<lparr>invoked := invoked p @ doneCallbacks p\<rparr>))
      | Inl NonAwsError \<Rightarrow> Some (reset (afterPut p))
      | Inl (AwsError ResourceNotFoundException) \<Rightarrow>
          (case createLogGroupAndStream (afterPut p) of
             None \<Rightarrow> None
           | Some (Some err, p') \<Rightarrow> Some p'
           | Some (None, p') \<Rightarrow> send p')
      | Inl (AwsError (InvalidSequenceTokenException expected)) \<Rightarrow>
          (case expected of
             None \<Rightarrow> Some (afterPut p)
           | Some tok \<Rightarrow> send ((afterPut p)\<lparr>sequenceToken := Some tok\<rparr>))
      | Inl (AwsError (OtherAwsError c)) \<Rightarrow> Some (reset (afterPut p)))"
  using assms
  apply (subst send.simps)
  apply (simp add: PutLogEvents_def afterPut_def Let_def sortEvents_def
         split: sum.splits error.splits awsError.splits option.splits)
  done

lemma send_exhausted: "putLogEventsReplies (Service p) = [] \<Longrightarrow> send p = None"
  by (subst send.simps) (simp add: PutLogEvents_def Let_def)

lemma createLogGroupAndStream_frame:
  assumes "createLogGroupAndStream p = Some (r, p')"
  shows "p' = p\<lparr>Service := Service p'\<rparr>"
    and "putLogEventsReplies (Service p') = putLogEventsReplies (Service p)"
  using assms
  by (auto simp: createLogGroupAndStream_def CreateLogGroup_def CreateLogStream_def Let_def
           split: option.splits list.splits if_splits)

lemma Hours_gt: "(Hours d > 24 * 14) = (d > 24 * 14 * Hour)"
  by (simp add: Hours_def Hour_def field_simps)

lemma Hours_lt: "(Hours d < - 2) = (d < - 2 * Hour)"
proof -
  have "(real_of_int d < real_of_int (- 7200000000000)) = (d < - 7200000000000)"
    by (rule of_int_less_iff)
  then show ?thesis by (simp add: Hours_def Hour_def field_simps)
qed

lemma Sub_gt: "0 \<le> k \<Longrightarrow> k < maxDuration \<Longrightarrow> (Sub t u > k) = (t - u > k)"
  by (auto simp: Sub_def Let_def minDuration_def maxDuration_def)

lemma Sub_lt: "minDuration < k \<Longrightarrow> k \<le> 0 \<Longrightarrow> (Sub t u < k) = (t - u < k)"
  by (auto simp: Sub_def Let_def minDuration_def maxDuration_def)

lemma hasValidTime_exact:
  "hasValidTime e now =
     (IsZero (ev_Time e) \<or> (- 2 * Hour \<le> now - ev_Time e \<and> now - ev_Time e \<le> 24 * 14 * Hour))"
proof -
  have a: "(Sub now (ev_Time e) > 24 * 14 * Hour) = (now - ev_Time e > 24 * 14 * Hour)"
    by (rule Sub_gt) (simp_all add: Hour_def maxDuration_def)
  have b: "(Sub now (ev_Time e) < - 2 * Hour) = (now - ev_Time e < - 2 * Hour)"
    by (rule Sub_lt) (simp_all add: Hour_def minDuration_def)
  show ?thesis
    unfolding hasValidTime_def Let_def Hours_gt Hours_lt a b by auto
qed

lemma drain_full:
  assumes "length ch = eventsChCap"
  shows "drain e ch = Some (tl ch @ [e])"
proof (cases ch)
  case Nil
  with assms show ?thesis by (simp add: eventsChCap_def)
next
  case (Cons x rest)
  with assms have "length rest < eventsChCap" by simp
  then have "drain e rest = Some (rest @ [e])" by (subst drain.simps) simp
  with Cons assms show ?thesis by (subst drain.simps) simp
qed

lemma drain_room: "length ch < eventsChCap \<Longrightarrow> drain e ch = Some (ch @ [e])"
  by (subst drain.simps) simp

lemma interfere_receive: "interfere DispatcherReceives = tl"
  by (rule ext) (simp split: list.split)

lemma receives_drop: "(interfere DispatcherReceives ^^ n) ch = drop n ch"
  unfolding interfere_receive by (induction n) (simp_all add: tl_drop drop_Suc)

text \<open>Left alone, the loop among the others is the loop on its own.\<close>

lemma AddEventNonBlocking_alone:
  "AddEventNonBlocking e now p =
     map_option (\<lambda>ch. p\<lparr>eventsCh := ch\<rparr>) (AddEventNonBlockingAmong [] e now (eventsCh p))"
  by (simp add: AddEventNonBlocking_def AddEventNonBlockingAmong_def)

subsection \<open>Conversions, and the order of the events\<close>

lemmas run_defs = AddEvent_def hasValidTime_exact IsZero_def zeroInstant_def Hour_def
  eventsChCap_def start_event_def resetFlushTimer_def spanExceeded_def Sub_def Let_def
  minDuration_def maxDuration_def convertEvent_def UnixNano_def int64_def
  signed_divide_int_def reqSizeLimit_def reqEventsLimit_def append_event_def After_def
  Before_def flush_def send.simps PutLogEvents_def sortEvents_def request_def reset_def
  sampleK_def sampleService_def NewPusher_def

lemma convertAll_append:
  "convertAll K (h @ [(e, now)]) p = snd (convertEvent K e now (convertAll K h p))"
  by (induction h arbitrary: p) auto

lemma lastValidTime_convertEvent:
  "lastValidTime (snd (convertEvent K e now p)) =
     (if IsZero (ev_Time e) then lastValidTime p else UnixNano (ev_Time e) sdiv 1000000)"
  by (simp add: convertEvent_def Let_def)

lemma lastValidTime_convertAll:
  "lastValidTime (convertAll K h p) =
     (if validTimes h = [] then lastValidTime p
      else UnixNano (last (validTimes h)) sdiv 1000000)"
proof (induction h rule: rev_induct)
  case Nil
  show ?case by (simp add: validTimes_def)
next
  case (snoc x h)
  obtain e now where x: "x = (e, now)" by (cases x)
  show ?case
    using snoc
    by (simp add: x convertAll_append lastValidTime_convertEvent validTimes_def)
qed

lemma sdiv_nonneg: "0 \<le> (k::int) \<Longrightarrow> k sdiv 1000000 = k div 1000000"
  by (simp add: signed_divide_int_def sgn_if)

lemma int64_id: "- (2 ^ 63) \<le> k \<Longrightarrow> k < 2 ^ 63 \<Longrightarrow> int64 k = k"
  by (simp add: int64_def)

lemma sorted_events_sortEvents:
  "needSort p \<or> sorted (map Timestamp (events p)) \<Longrightarrow>
     sorted (map Timestamp (events (sortEvents p)))"
  by (auto simp: sortEvents_def)

lemma ordered_afterPut:
  assumes "ordered p"
  shows "ordered (afterPut p)" and "sorted (map Timestamp (events (afterPut p)))"
proof -
  from assms have s: "sorted (map Timestamp (events (sortEvents p)))"
    by (simp add: ordered_def sorted_events_sortEvents)
  then show "sorted (map Timestamp (events (afterPut p)))" by simp
  with assms s show "ordered (afterPut p)"
    by (simp add: ordered_def request_def)
qed

lemma ordered_reset:
  "list_all sortedCall (calls (Service p)) \<Longrightarrow> ordered (reset p)"
  by (simp add: ordered_def)

lemma createLogGroupAndStream_ordered:
  assumes "createLogGroupAndStream p = Some (r, p')" and "ordered p"
  shows "ordered p'"
  using assms
  by (auto simp: createLogGroupAndStream_def CreateLogGroup_def CreateLogStream_def Let_def
        ordered_def split: option.splits list.splits if_splits)

lemma send_ordered:
  assumes "ordered p" and "send p = Some p'"
  shows "ordered p'"
  using assms
proof (induction "length (putLogEventsReplies (Service p))" arbitrary: p rule: less_induct)
  case less
  from less.prems(2) obtain r rs where rs: "putLogEventsReplies (Service p) = r # rs"
    by (cases "putLogEventsReplies (Service p)") (auto simp: send_exhausted)
  note step = send_unfold [OF rs]
  note ap = ordered_afterPut [OF less.prems(1)]
  from ap(1) have calls_ok: "list_all sortedCall (calls (Service (afterPut p)))"
    by (simp add: ordered_def)
  have shorter: "length (putLogEventsReplies (Service (afterPut p)))
      < length (putLogEventsReplies (Service p))"
    using rs by simp
  show ?case
  proof (cases r)
    case (Inr out)
    with step less.prems(2) have "p' = reset ((if NextSequenceToken out \<noteq> None
                        then (afterPut p)\<lparr>sequenceToken := NextSequenceToken out\<rparr>
                        else afterPut p)\<lparr>invoked := invoked p @ doneCallbacks p\<rparr>)"
      by simp
    with calls_ok show ?thesis by (simp add: ordered_def del: afterPut_fields(15))
  next
    case (Inl err)
    show ?thesis
    proof (cases err)
      case NonAwsError
      with Inl step less.prems(2) have "p' = reset (afterPut p)" by simp
      with calls_ok show ?thesis by (simp add: ordered_reset)
    next
      case (AwsError a)
      show ?thesis
      proof (cases a)
        case ResourceNotFoundException
        with AwsError Inl step less.prems(2)
        obtain res q where c: "createLogGroupAndStream (afterPut p) = Some (res, q)"
          by (auto split: option.splits)
        then have q: "ordered q" using ap(1) by (rule createLogGroupAndStream_ordered)
        from c have len: "putLogEventsReplies (Service q)
            = putLogEventsReplies (Service (afterPut p))"
          by (rule createLogGroupAndStream_frame)
        show ?thesis
        proof (cases res)
          case None
          with c ResourceNotFoundException AwsError Inl step less.prems(2)
          have "send q = Some p'" by simp
          with less.hyps [of q] q len shorter show ?thesis by simp
        next
          case (Some e)
          with c ResourceNotFoundException AwsError Inl step less.prems(2)
          have "p' = q" by simp
          with q show ?thesis by simp
        qed
      next
        case (InvalidSequenceTokenException expected)
        show ?thesis
        proof (cases expected)
          case None
          with InvalidSequenceTokenException AwsError Inl step less.prems(2)
          have "p' = afterPut p" by simp
          with ap(1) show ?thesis by simp
        next
          case (Some tok)
          with InvalidSequenceTokenException AwsError Inl step less.prems(2)
          have "send ((afterPut p)\<lparr>sequenceToken := Some tok\<rparr>) = Some p'" by simp
          moreover from ap(1) have "ordered ((afterPut p)\<lparr>sequenceToken := Some tok\<rparr>)"
            by (simp add: ordered_def del: afterPut_fields)
          ultimately show ?thesis
            using less.hyps [of "(afterPut p)\<lparr>sequenceToken := Some tok\<rparr>"] shorter
            by simp
        qed
      next
        case (OtherAwsError c)
        with AwsError Inl step less.prems(2) have "p' = reset (afterPut p)" by simp
        with calls_ok show ?thesis by (simp add: ordered_reset)
      qed
    qed
  qed
qed

lemma convertEvent_frame:
  "snd (convertEvent K e now p) = p \<or>
   (\<exists>t. snd (convertEvent K e now p) = p\<lparr>lastValidTime := t\<rparr>)"
  by (auto simp: convertEvent_def Let_def)

lemma convertEvent_ordered: "ordered p \<Longrightarrow> ordered (snd (convertEvent K e now p))"
  using convertEvent_frame [of K e now p] by (auto simp: ordered_def)

lemma sorted_snoc:
  assumes "sorted (map f xs)" and "xs \<noteq> [] \<Longrightarrow> f (last xs) \<le> f x"
  shows "sorted (map f (xs @ [x]))"
proof (cases "xs = []")
  case True
  then show ?thesis by simp
next
  case False
  then obtain ys y where xs: "xs = ys @ [y]" by (cases xs rule: rev_cases) auto
  with assms(2) have "f y \<le> f x" by simp
  moreover from assms(1) xs have "sorted (map f ys)" "\<forall>a\<in>set ys. f a \<le> f y"
    by (auto simp: sorted_append)
  ultimately show ?thesis using xs by (auto simp: sorted_append intro: order_trans)
qed

lemma append_event_fields:
  "events (append_event e ce sz p) = events p @ [ce]"
  "needSort (append_event e ce sz p) =
     (needSort p \<or> (length (events p) > 0 \<and> Timestamp ce < Timestamp (last (events p))))"
  "Service (append_event e ce sz p) = Service p"
  "doneCallbacks (append_event e ce sz p) = doneCallbacks p @ [ev_Done e]"
  "bufferredSize (append_event e ce sz p) = bufferredSize p + sz"
  "invoked (append_event e ce sz p) = invoked p"
  "eventsCh (append_event e ce sz p) = eventsCh p"
  by (simp_all add: append_event_def Let_def split: option.split)

lemma start_event_SomeE:
  assumes "start_event K e now p = Some p'"
  obtains p0 p1 ce p2 p3 where
    "p0 = (if length (events p) = 0 then resetFlushTimer p else p)"
    "(if spanExceeded p0 (ev_Time e) then send p0 else Some p0) = Some p1"
    "convertEvent K e now p1 = (ce, p2)"
    "(if bufferredSize p2 + (length (Message ce) + eventHeaderSize K) > reqSizeLimit
         \<or> length (events p2) = reqEventsLimit
      then send p2 else Some p2) = Some p3"
    "p' = append_event e ce (length (Message ce) + eventHeaderSize K) p3"
proof -
  define p0 where "p0 = (if length (events p) = 0 then resetFlushTimer p else p)"
  define first where "first = (if spanExceeded p0 (ev_Time e) then send p0 else Some p0)"
  have eq: "start_event K e now p =
      first \<bind> (\<lambda>p1. case convertEvent K e now p1 of (ce, p2) \<Rightarrow>
        (if bufferredSize p2 + (length (Message ce) + eventHeaderSize K) > reqSizeLimit
            \<or> length (events p2) = reqEventsLimit
         then send p2 else Some p2) \<bind>
        (\<lambda>p3. Some (append_event e ce (length (Message ce) + eventHeaderSize K) p3)))"
    unfolding start_event_def p0_def first_def Let_def by simp
  from assms eq obtain p1 where p1: "first = Some p1"
    by (cases first) auto
  obtain ce p2 where c: "convertEvent K e now p1 = (ce, p2)"
    by (cases "convertEvent K e now p1")
  define second where "second =
     (if bufferredSize p2 + (length (Message ce) + eventHeaderSize K) > reqSizeLimit
         \<or> length (events p2) = reqEventsLimit
      then send p2 else Some p2)"
  from assms eq p1 c have
    "second \<bind> (\<lambda>p3. Some (append_event e ce (length (Message ce) + eventHeaderSize K) p3))
       = Some p'"
    by (simp add: second_def)
  then obtain p3 where "second = Some p3"
    and "p' = append_event e ce (length (Message ce) + eventHeaderSize K) p3"
    by (cases second) auto
  with p0_def p1 c show thesis
    unfolding first_def second_def by (rule that [of p0 p1 ce p2 p3])
qed

lemma append_event_ordered:
  assumes "ordered p"
  shows "ordered (append_event e ce sz p)"
proof (cases "needSort (append_event e ce sz p)")
  case True
  with assms show ?thesis by (simp add: ordered_def append_event_fields(3))
next
  case False
  then have ns: "\<not> needSort p"
    and le: "events p \<noteq> [] \<Longrightarrow> Timestamp (last (events p)) \<le> Timestamp ce"
    by (auto simp: append_event_fields)
  with assms have "sorted (map Timestamp (events p))" by (simp add: ordered_def)
  then have "sorted (map Timestamp (events p @ [ce]))" using le by (rule sorted_snoc)
  with assms show ?thesis by (simp add: ordered_def append_event_fields)
qed

lemma guarded_send_ordered:
  "ordered p \<Longrightarrow> (if b then send p else Some p) = Some p' \<Longrightarrow> ordered p'"
  by (cases b) (auto dest: send_ordered)

lemma flush_ordered: "ordered p \<Longrightarrow> flush p = Some p' \<Longrightarrow> ordered p'"
  unfolding flush_def by (rule guarded_send_ordered)

lemma start_event_ordered:
  assumes "ordered p" and "start_event K e now p = Some p'"
  shows "ordered p'"
proof -
  from assms(2) obtain p0 p1 ce p2 p3 where
    p0: "p0 = (if length (events p) = 0 then resetFlushTimer p else p)"
    and p1: "(if spanExceeded p0 (ev_Time e) then send p0 else Some p0) = Some p1"
    and c: "convertEvent K e now p1 = (ce, p2)"
    and p3: "(if bufferredSize p2 + (length (Message ce) + eventHeaderSize K) > reqSizeLimit
                \<or> length (events p2) = reqEventsLimit
             then send p2 else Some p2) = Some p3"
    and res: "p' = append_event e ce (length (Message ce) + eventHeaderSize K) p3"
    by (rule start_event_SomeE)
  from assms(1) p0 have "ordered p0" by (simp add: ordered_def resetFlushTimer_def)
  then have "ordered p1" using p1 by (rule guarded_send_ordered)
  then have "ordered (snd (convertEvent K e now p1))" by (rule convertEvent_ordered)
  with c have "ordered p2" by simp
  then have "ordered p3" using p3 by (rule guarded_send_ordered)
  with res show ?thesis by (simp add: append_event_ordered)
qed

lemma AddEvent_ordered: "ordered p \<Longrightarrow> AddEvent e now p = Some p' \<Longrightarrow> ordered p'"
  by (auto simp: AddEvent_def ordered_def split: if_splits)

lemma AddEventNonBlocking_ordered:
  "ordered p \<Longrightarrow> AddEventNonBlocking e now p = Some p' \<Longrightarrow> ordered p'"
  by (auto simp: AddEventNonBlocking_def ordered_def split: if_splits)

lemma start_Cons_SomeE:
  assumes "start K (a # sched) p = Some p'"
  obtains q where "start K [a] p = Some q" and "a \<noteq> CtxDone \<Longrightarrow> start K sched q = Some p'"
    and "a = CtxDone \<Longrightarrow> q = p'"
proof (cases a)
  case (CallAddEvent e now)
  with assms obtain q where "AddEvent e now p = Some q" "start K sched q = Some p'"
    by (cases "AddEvent e now p") auto
  with CallAddEvent that [of q] show thesis by simp
next
  case (CallAddEventNonBlocking e now)
  with assms obtain q where "AddEventNonBlocking e now p = Some q" "start K sched q = Some p'"
    by (cases "AddEventNonBlocking e now p") auto
  with CallAddEventNonBlocking that [of q] show thesis by simp
next
  case (RecvEvent now)
  with assms obtain e ch where ch: "eventsCh p = e # ch"
    by (cases "eventsCh p") auto
  with RecvEvent assms obtain q where
    "start_event K e now (p\<lparr>eventsCh := ch\<rparr>) = Some q" "start K sched q = Some p'"
    by (cases "start_event K e now (p\<lparr>eventsCh := ch\<rparr>)") auto
  with RecvEvent ch that [of q] show thesis by simp
next
  case TimerFires
  with assms obtain q where
    "flush (p\<lparr>flushTimer := False\<rparr>) = Some q" "start K sched q = Some p'"
    by (cases "flush (p\<lparr>flushTimer := False\<rparr>)") auto
  with TimerFires that [of q] show thesis by simp
next
  case CtxDone
  with assms that [of p'] show thesis by simp
qed

lemma start_single_ordered:
  assumes "ordered p" and "start K [a] p = Some q"
  shows "ordered q"
proof (cases a)
  case (CallAddEvent e now)
  with assms(2) have "AddEvent e now p = Some q" by (cases "AddEvent e now p") auto
  with assms(1) show ?thesis by (rule AddEvent_ordered)
next
  case (CallAddEventNonBlocking e now)
  with assms(2) have "AddEventNonBlocking e now p = Some q"
    by (cases "AddEventNonBlocking e now p") auto
  with assms(1) show ?thesis by (rule AddEventNonBlocking_ordered)
next
  case (RecvEvent now)
  with assms(2) obtain e ch where ch: "eventsCh p = e # ch"
    by (cases "eventsCh p") auto
  with RecvEvent assms(2) have "start_event K e now (p\<lparr>eventsCh := ch\<rparr>) = Some q"
    by (cases "start_event K e now (p\<lparr>eventsCh := ch\<rparr>)") auto
  moreover from assms(1) have "ordered (p\<lparr>eventsCh := ch\<rparr>)" by (simp add: ordered_def)
  ultimately show ?thesis by (rule start_event_ordered [rotated])
next
  case TimerFires
  with assms(2) have "flush (p\<lparr>flushTimer := False\<rparr>) = Some q"
    by (cases "flush (p\<lparr>flushTimer := False\<rparr>)") auto
  moreover from assms(1) have "ordered (p\<lparr>flushTimer := False\<rparr>)" by (simp add: ordered_def)
  ultimately show ?thesis by (rule flush_ordered [rotated])
next
  case CtxDone
  with assms show ?thesis by (auto dest: flush_ordered)
qed

lemma start_ordered:
  assumes "ordered p" and "start K sched p = Some p'"
  shows "ordered p'"
  using assms
proof (induction sched arbitrary: p)
  case Nil
  then show ?case by simp
next
  case (Cons a sched)
  from Cons.prems(2) have "\<exists>q. start K [a] p = Some q \<and>
      (if a = CtxDone then q = p' else start K sched q = Some p')"
    by (rule start_Cons_SomeE) auto
  then obtain q where q: "start K [a] p = Some q"
    and rest: "if a = CtxDone then q = p' else start K sched q = Some p'"
    by blast
  from Cons.prems(1) q have "ordered q" by (rule start_single_ordered)
  then show ?case using rest Cons.IH [of q] by (cases "a = CtxDone") auto
qed

lemma ordered_NewPusher: "calls svc = [] \<Longrightarrow> ordered (NewPusher g s svc)"
  by (simp add: ordered_def NewPusher_def)

subsection \<open>The size, count and span bounds\<close>

lemma cleared_inBounds: "cleared p \<Longrightarrow> inBounds p"
  by (simp add: cleared_def inBounds_def)

lemma clearing_afterPut:
  "clearing (Service p) \<Longrightarrow> clearing (Service (afterPut p))"
  by (cases "putLogEventsReplies (Service p)") (simp_all add: clearing_def afterPut_def)

lemma createLogGroupAndStream_clearing:
  assumes "createLogGroupAndStream p = Some (r, p')" and "clearing (Service p)"
  shows "r = None \<and> clearing (Service p')"
  using assms
  by (auto simp: createLogGroupAndStream_def CreateLogGroup_def CreateLogStream_def Let_def
        clearing_def split: option.splits list.splits if_splits error.splits)

lemma send_clears:
  assumes "clearing (Service p)" and "send p = Some p'"
  shows "cleared p' \<and> clearing (Service p')"
  using assms
proof (induction "length (putLogEventsReplies (Service p))" arbitrary: p rule: less_induct)
  case less
  from less.prems(2) obtain r rs where rs: "putLogEventsReplies (Service p) = r # rs"
    by (cases "putLogEventsReplies (Service p)") (auto simp: send_exhausted)
  note step = send_unfold [OF rs]
  from less.prems(1) have ap: "clearing (Service (afterPut p))" by (rule clearing_afterPut)
  from less.prems(1) rs have r: "r \<noteq> Inl (AwsError (InvalidSequenceTokenException None))"
    by (simp add: clearing_def)
  have shorter: "length (putLogEventsReplies (Service (afterPut p)))
      < length (putLogEventsReplies (Service p))"
    using rs by simp
  show ?case
  proof (cases r)
    case (Inr out)
    with step less.prems(2) have "p' = reset ((if NextSequenceToken out \<noteq> None
                        then (afterPut p)\<lparr>sequenceToken := NextSequenceToken out\<rparr>
                        else afterPut p)\<lparr>invoked := invoked p @ doneCallbacks p\<rparr>)"
      by simp
    with ap show ?thesis by (simp add: cleared_def del: afterPut_fields(14,15))
  next
    case (Inl err)
    show ?thesis
    proof (cases err)
      case NonAwsError
      with Inl step less.prems(2) have "p' = reset (afterPut p)" by simp
      with ap show ?thesis by (simp add: cleared_def del: afterPut_fields(14,15))
    next
      case (AwsError a)
      show ?thesis
      proof (cases a)
        case ResourceNotFoundException
        with AwsError Inl step less.prems(2)
        obtain res q where c: "createLogGroupAndStream (afterPut p) = Some (res, q)"
          by (auto split: option.splits)
        then have q: "res = None \<and> clearing (Service q)"
          using ap by (rule createLogGroupAndStream_clearing)
        from c have len: "putLogEventsReplies (Service q)
            = putLogEventsReplies (Service (afterPut p))"
          by (rule createLogGroupAndStream_frame)
        from q c ResourceNotFoundException AwsError Inl step less.prems(2)
        have "send q = Some p'" by simp
        with less.hyps [of q] q len shorter show ?thesis by simp
      next
        case (InvalidSequenceTokenException expected)
        with r AwsError Inl obtain tok where tok: "expected = Some tok" by (cases expected) auto
        with InvalidSequenceTokenException AwsError Inl step less.prems(2)
        have "send ((afterPut p)\<lparr>sequenceToken := Some tok\<rparr>) = Some p'" by simp
        moreover from ap have "clearing (Service ((afterPut p)\<lparr>sequenceToken := Some tok\<rparr>))"
          by simp
        ultimately show ?thesis
          using less.hyps [of "(afterPut p)\<lparr>sequenceToken := Some tok\<rparr>"] shorter
          by simp
      next
        case (OtherAwsError c)
        with AwsError Inl step less.prems(2) have "p' = reset (afterPut p)" by simp
        with ap show ?thesis by (simp add: cleared_def del: afterPut_fields(14,15))
      qed
    qed
  qed
qed

lemma append_event_minT_maxT:
  "minT (append_event e ce sz p) =
     Some (case minT p of None \<Rightarrow> ev_Time e
           | Some m \<Rightarrow> if After m (ev_Time e) then ev_Time e else m)"
  "maxT (append_event e ce sz p) =
     Some (case maxT p of None \<Rightarrow> ev_Time e
           | Some m \<Rightarrow> if Before m (ev_Time e) then ev_Time e else m)"
  by (simp_all add: append_event_def Let_def split: option.split)

lemma Sub_within_day:
  "\<not> Sub t u > 24 * Hour \<Longrightarrow> t - u \<le> 24 * Hour"
  using Sub_gt [of "24 * Hour" t u] by (simp add: Hour_def maxDuration_def)

lemma append_event_inBounds:
  assumes "inBounds p" and "\<not> spanExceeded p (ev_Time e)"
    and "bufferredSize p + sz \<le> reqSizeLimit" and "length (events p) < reqEventsLimit"
  shows "inBounds (append_event e ce sz p)"
proof -
  have sz: "bufferredSize (append_event e ce sz p) \<le> reqSizeLimit"
    and len: "length (events (append_event e ce sz p)) \<le> reqEventsLimit"
    using assms(3,4) by (simp_all add: append_event_fields)
  have span: "case minT (append_event e ce sz p) of
         None \<Rightarrow> maxT (append_event e ce sz p) = None
       | Some a \<Rightarrow> (case maxT (append_event e ce sz p) of None \<Rightarrow> False
                    | Some b \<Rightarrow> a \<le> b \<and> b - a \<le> 24 * Hour)"
  proof (cases "minT p")
    case None
    with assms(1) have "maxT p = None" by (simp add: inBounds_def)
    with None show ?thesis by (simp add: append_event_minT_maxT Hour_def)
  next
    case (Some a)
    with assms(1) obtain b where b: "maxT p = Some b" and ab: "a \<le> b" "b - a \<le> 24 * Hour"
      by (cases "maxT p") (auto simp: inBounds_def)
    from assms(2) Some b have "\<not> Sub (ev_Time e) a > 24 * Hour" "\<not> Sub b (ev_Time e) > 24 * Hour"
      by (simp_all add: spanExceeded_def)
    then have "ev_Time e - a \<le> 24 * Hour" "b - ev_Time e \<le> 24 * Hour"
      by (simp_all add: Sub_within_day)
    with Some b ab show ?thesis
      by (simp add: append_event_minT_maxT After_def Before_def)
  qed
  from sz len span show ?thesis by (simp add: inBounds_def)
qed

lemma cleared_not_spanExceeded: "cleared p \<Longrightarrow> \<not> spanExceeded p t"
  by (simp add: cleared_def spanExceeded_def)

lemma convertEvent_length:
  assumes "length (truncatedSuffix K) \<le> msgSizeLimit K"
  shows "length (Message (fst (convertEvent K e now p))) \<le> msgSizeLimit K"
  using assms by (simp add: convertEvent_def Let_def)

lemma convertEvent_buffer:
  "events (snd (convertEvent K e now p)) = events p"
  "bufferredSize (snd (convertEvent K e now p)) = bufferredSize p"
  "minT (snd (convertEvent K e now p)) = minT p"
  "maxT (snd (convertEvent K e now p)) = maxT p"
  "Service (snd (convertEvent K e now p)) = Service p"
  using convertEvent_frame [of K e now p] by auto

lemma inBounds_cong:
  assumes "bufferredSize q = bufferredSize p" and "events q = events p"
    and "minT q = minT p" and "maxT q = maxT p"
  shows "inBounds q = inBounds p"
  unfolding inBounds_def assms ..

lemma safe_cong:
  assumes "bufferredSize q = bufferredSize p" and "events q = events p"
    and "minT q = minT p" and "maxT q = maxT p" and "Service q = Service p"
  shows "safe q = safe p"
  unfolding safe_def inBounds_cong [OF assms(1-4)] assms(5) ..

lemma guarded_send_safe:
  assumes "safe p" and "(if b then send p else Some p) = Some p'"
  shows "safe p' \<and> (if b then cleared p' else p' = p)"
proof (cases b)
  case True
  with assms(2) have "send p = Some p'" by simp
  with assms(1) have "cleared p' \<and> clearing (Service p')"
    using send_clears [of p p'] by (simp add: safe_def)
  with True show ?thesis by (simp add: safe_def cleared_inBounds)
next
  case False
  with assms show ?thesis by simp
qed

lemma start_event_safe:
  assumes K: "length (truncatedSuffix K) \<le> msgSizeLimit K"
      "msgSizeLimit K + eventHeaderSize K \<le> reqSizeLimit"
    and "safe p" and "start_event K e now p = Some p'"
  shows "safe p'"
proof -
  from assms(4) obtain p0 p1 ce p2 p3 where
    p0: "p0 = (if length (events p) = 0 then resetFlushTimer p else p)"
    and p1: "(if spanExceeded p0 (ev_Time e) then send p0 else Some p0) = Some p1"
    and c: "convertEvent K e now p1 = (ce, p2)"
    and p3: "(if bufferredSize p2 + (length (Message ce) + eventHeaderSize K) > reqSizeLimit
                \<or> length (events p2) = reqEventsLimit
             then send p2 else Some p2) = Some p3"
    and res: "p' = append_event e ce (length (Message ce) + eventHeaderSize K) p3"
    by (rule start_event_SomeE)
  let ?sz = "length (Message ce) + eventHeaderSize K"
  from K(1) have "length (Message (fst (convertEvent K e now p1))) \<le> msgSizeLimit K"
    by (rule convertEvent_length)
  with c K(2) have sz: "?sz \<le> reqSizeLimit" by simp
  have "safe p0 = safe p" unfolding p0 by (rule safe_cong) (simp_all add: resetFlushTimer_def)
  with assms(3) have "safe p0" by simp
  from guarded_send_safe [OF this p1]
  have s1: "safe p1"
    and alt1: "if spanExceeded p0 (ev_Time e) then cleared p1 else p1 = p0"
    by simp_all
  have n1: "\<not> spanExceeded p1 (ev_Time e)"
  proof (cases "spanExceeded p0 (ev_Time e)")
    case True
    with alt1 have "cleared p1" by simp
    then show ?thesis by (rule cleared_not_spanExceeded)
  next
    case False
    with alt1 show ?thesis by simp
  qed
  from c have p2: "p2 = snd (convertEvent K e now p1)" by simp
  have "safe p2 = safe p1" unfolding p2 by (rule safe_cong) (simp_all add: convertEvent_buffer)
  with s1 have s2: "safe p2" by simp
  from n1 have n2: "\<not> spanExceeded p2 (ev_Time e)"
    by (simp add: p2 spanExceeded_def convertEvent_buffer)
  from guarded_send_safe [OF s2 p3]
  have s3: "safe p3"
    and alt: "if bufferredSize p2 + ?sz > reqSizeLimit \<or> length (events p2) = reqEventsLimit
              then cleared p3 else p3 = p2"
    by simp_all
  have "inBounds (append_event e ce ?sz p3)"
  proof (cases "bufferredSize p2 + ?sz > reqSizeLimit \<or> length (events p2) = reqEventsLimit")
    case True
    with alt have cl: "cleared p3" by simp
    then have "inBounds p3" by (rule cleared_inBounds)
    moreover from cl have "\<not> spanExceeded p3 (ev_Time e)" by (rule cleared_not_spanExceeded)
    moreover from cl sz have "bufferredSize p3 + ?sz \<le> reqSizeLimit" by (simp add: cleared_def)
    moreover from cl have "length (events p3) < reqEventsLimit"
      by (simp add: cleared_def reqEventsLimit_def)
    ultimately show ?thesis by (rule append_event_inBounds)
  next
    case False
    with alt have eq: "p3 = p2" by simp
    from s2 have "inBounds p2" by (simp add: safe_def)
    moreover note n2
    moreover from False have "bufferredSize p2 + ?sz \<le> reqSizeLimit" by simp
    moreover from False s2 have "length (events p2) < reqEventsLimit"
      by (simp add: safe_def inBounds_def)
    ultimately show ?thesis unfolding eq by (rule append_event_inBounds)
  qed
  with s3 res show ?thesis by (simp add: safe_def append_event_fields)
qed

lemma start_single_safe:
  assumes K: "length (truncatedSuffix K) \<le> msgSizeLimit K"
      "msgSizeLimit K + eventHeaderSize K \<le> reqSizeLimit"
    and "safe p" and "start K [a] p = Some q"
  shows "safe q"
proof (cases a)
  case (CallAddEvent e now)
  with assms(4) have "AddEvent e now p = Some q" by (cases "AddEvent e now p") auto
  then have "q = p \<or> q = p\<lparr>eventsCh := eventsCh p @ [e]\<rparr>"
    by (auto simp: AddEvent_def split: if_splits)
  moreover have "safe (p\<lparr>eventsCh := eventsCh p @ [e]\<rparr>) = safe p"
    by (rule safe_cong) simp_all
  ultimately show ?thesis using assms(3) by auto
next
  case (CallAddEventNonBlocking e now)
  with assms(4) have "AddEventNonBlocking e now p = Some q"
    by (cases "AddEventNonBlocking e now p") auto
  then have "q = p \<or> (\<exists>ch. q = p\<lparr>eventsCh := ch\<rparr>)"
    by (auto simp: AddEventNonBlocking_def split: if_splits)
  moreover have "safe (p\<lparr>eventsCh := ch\<rparr>) = safe p" for ch
    by (rule safe_cong) simp_all
  ultimately show ?thesis using assms(3) by auto
next
  case (RecvEvent now)
  with assms(4) obtain e ch where ch: "eventsCh p = e # ch"
    by (cases "eventsCh p") auto
  with RecvEvent assms(4) have "start_event K e now (p\<lparr>eventsCh := ch\<rparr>) = Some q"
    by (cases "start_event K e now (p\<lparr>eventsCh := ch\<rparr>)") auto
  moreover have "safe (p\<lparr>eventsCh := ch\<rparr>) = safe p"
    by (rule safe_cong) simp_all
  with assms(3) have "safe (p\<lparr>eventsCh := ch\<rparr>)" by simp
  ultimately show ?thesis using K by (simp add: start_event_safe)
next
  case TimerFires
  with assms(4) have "flush (p\<lparr>flushTimer := False\<rparr>) = Some q"
    by (cases "flush (p\<lparr>flushTimer := False\<rparr>)") auto
  moreover have "safe (p\<lparr>flushTimer := False\<rparr>) = safe p"
    by (rule safe_cong) simp_all
  with assms(3) have "safe (p\<lparr>flushTimer := False\<rparr>)" by simp
  ultimately show ?thesis
    unfolding flush_def using guarded_send_safe [of "p\<lparr>flushTimer := False\<rparr>" _ q] by simp
next
  case CtxDone
  with assms(4) have "flush p = Some q" by simp
  with assms(3) show ?thesis unfolding flush_def using guarded_send_safe [of p _ q] by simp
qed

lemma start_safe:
  assumes K: "length (truncatedSuffix K) \<le> msgSizeLimit K"
      "msgSizeLimit K + eventHeaderSize K \<le> reqSizeLimit"
    and "safe p" and "start K sched p = Some p'"
  shows "safe p'"
  using assms(3,4)
proof (induction sched arbitrary: p)
  case Nil
  then show ?case by simp
next
  case (Cons a sched)
  from Cons.prems(2) have "\<exists>q. start K [a] p = Some q \<and>
      (if a = CtxDone then q = p' else start K sched q = Some p')"
    by (rule start_Cons_SomeE) auto
  then obtain q where q: "start K [a] p = Some q"
    and rest: "if a = CtxDone then q = p' else start K sched q = Some p'"
    by blast
  from K Cons.prems(1) q have "safe q" by (rule start_single_safe)
  then show ?case using rest Cons.IH [of q] by (cases "a = CtxDone") auto
qed

text \<open>
  What does hold of the two bounds: when no reply of the sink makes \<open>send\<close> return with the
  buffer kept, every state of every execution from a new pusher is within the size, count
  and span limits.
\<close>

lemma bounds_when_every_send_clears:
  assumes "length (truncatedSuffix K) \<le> msgSizeLimit K"
    and "msgSizeLimit K + eventHeaderSize K \<le> reqSizeLimit"
    and "clearing svc"
    and "start K sched (NewPusher g s svc) = Some p"
  shows "bufferredSize p \<le> reqSizeLimit \<and> length (events p) \<le> reqEventsLimit \<and>
         (case minT p of
            None \<Rightarrow> maxT p = None
          | Some a \<Rightarrow> (case maxT p of None \<Rightarrow> False
                       | Some b \<Rightarrow> a \<le> b \<and> b - a \<le> 24 * Hour))"
proof -
  from assms(3) have "safe (NewPusher g s svc)"
    by (simp add: safe_def inBounds_def NewPusher_def)
  with assms(1,2) have "safe p" using assms(4) by (rule start_safe)
  then show ?thesis by (simp add: safe_def inBounds_def)
qed

subsection \<open>The zero of lastValidTime\<close>

text \<open>
  \<open>lastValidTime = 0\<close> also stands for "no event with a time so far". After an event
  stamped at the epoch, whose millisecond is 0, an event without a time is therefore stamped
  with the clock (here 7 ms) and not with the last valid timestamp.
\<close>

lemma convertEvent_after_epoch_event:
  "lastValidTime (convertAll sampleK [(\<lparr>ev_Message = ''v'', ev_Time = 0, ev_Done = 5\<rparr>, 0)]
       (NewPusher ''g'' ''s'' (sampleService []))) = 0 \<and>
   validTimes [(\<lparr>ev_Message = ''v'', ev_Time = 0, ev_Done = 5\<rparr>, 0)] = [0] \<and>
   Timestamp (fst (convertEvent sampleK
       \<lparr>ev_Message = ''z'', ev_Time = zeroInstant, ev_Done = 6\<rparr> 7000000
       (convertAll sampleK [(\<lparr>ev_Message = ''v'', ev_Time = 0, ev_Done = 5\<rparr>, 0)]
          (NewPusher ''g'' ''s'' (sampleService []))))) = 7"
  by (simp add: validTimes_def convertEvent_def IsZero_def zeroInstant_def UnixNano_def
      int64_def signed_divide_int_def NewPusher_def Let_def)

section \<open>The claims\<close>

text \<open>
  C5. An event whose time is the zero instant passes \<open>hasValidTime\<close>. Any other event fails
  it exactly when \<open>dt\<close>, the hours from its time to now, is above \<open>24*14\<close> or below
  \<open>-2\<close>; said in whole nanoseconds, it passes exactly when now minus its time lies between
  minus two hours and fourteen days. At the entry points: an event that passes is put on the
  channel by \<open>AddEvent\<close> when there is room (and the call waits when there is none), and
  goes into the loop of \<open>AddEventNonBlocking\<close>, which puts it on the channel at once when
  there is room. An event that fails leaves the pusher as it was, with either entry point: it
  is not put on the channel, the call returns, and every execution goes on as if the call had
  not been made, so the event never reaches the sink and its callback is never run.
\<close>

theorem admission:
  "(hasValidTime e now =
      (IsZero (ev_Time e) \<or>
       \<not> (Hours (Sub now (ev_Time e)) > 24 * 14 \<or> Hours (Sub now (ev_Time e)) < - 2))) \<and>
   (hasValidTime e now =
      (IsZero (ev_Time e) \<or>
       (- 2 * Hour \<le> now - ev_Time e \<and> now - ev_Time e \<le> 24 * 14 * Hour))) \<and>
   (hasValidTime e now \<longrightarrow>
      AddEvent e now p =
        (if length (eventsCh p) < eventsChCap then Some (p\<lparr>eventsCh := eventsCh p @ [e]\<rparr>)
         else None) \<and>
      AddEventNonBlocking e now p =
        map_option (\<lambda>ch. p\<lparr>eventsCh := ch\<rparr>) (drain e (eventsCh p)) \<and>
      AddEventNonBlockingAmong sched e now (eventsCh p)
        = nonBlockingLoop AtSelect e sched (eventsCh p) \<and>
      (length (eventsCh p) < eventsChCap \<longrightarrow>
         AddEventNonBlocking e now p = Some (p\<lparr>eventsCh := eventsCh p @ [e]\<rparr>))) \<and>
   (\<not> hasValidTime e now \<longrightarrow>
      AddEvent e now p = Some p \<and> AddEventNonBlocking e now p = Some p \<and>
      AddEventNonBlockingAmong sched e now (eventsCh p) = Some (eventsCh p) \<and>
      start K (CallAddEvent e now # rest) p = start K rest p \<and>
      start K (CallAddEventNonBlocking e now # rest) p = start K rest p)"
proof (intro conjI impI)
  show "hasValidTime e now =
      (IsZero (ev_Time e) \<or>
       \<not> (Hours (Sub now (ev_Time e)) > 24 * 14 \<or> Hours (Sub now (ev_Time e)) < - 2))"
    by (simp add: hasValidTime_def Let_def)
  show "hasValidTime e now =
      (IsZero (ev_Time e) \<or>
       (- 2 * Hour \<le> now - ev_Time e \<and> now - ev_Time e \<le> 24 * 14 * Hour))"
    by (rule hasValidTime_exact)
next
  assume passes: "hasValidTime e now"
  then show "AddEvent e now p =
        (if length (eventsCh p) < eventsChCap then Some (p\<lparr>eventsCh := eventsCh p @ [e]\<rparr>)
         else None)"
    by (simp add: AddEvent_def)
  from passes show loop: "AddEventNonBlocking e now p =
        map_option (\<lambda>ch. p\<lparr>eventsCh := ch\<rparr>) (drain e (eventsCh p))"
    by (simp add: AddEventNonBlocking_def)
  from passes show "AddEventNonBlockingAmong sched e now (eventsCh p)
        = nonBlockingLoop AtSelect e sched (eventsCh p)"
    by (simp add: AddEventNonBlockingAmong_def)
  show "AddEventNonBlocking e now p = Some (p\<lparr>eventsCh := eventsCh p @ [e]\<rparr>)"
    if "length (eventsCh p) < eventsChCap"
    using that loop by (simp add: drain_room)
next
  assume rejected: "\<not> hasValidTime e now"
  then show a: "AddEvent e now p = Some p" by (simp add: AddEvent_def)
  from rejected show b: "AddEventNonBlocking e now p = Some p"
    by (simp add: AddEventNonBlocking_def)
  from rejected show "AddEventNonBlockingAmong sched e now (eventsCh p) = Some (eventsCh p)"
    by (simp add: AddEventNonBlockingAmong_def)
  from a show "start K (CallAddEvent e now # rest) p = start K rest p" by simp
  from b show "start K (CallAddEventNonBlocking e now # rest) p = start K rest p" by simp
qed

text \<open>
  An event stamped at the epoch, submitted two hours and one nanosecond before the epoch and
  fourteen days and one nanosecond after it, is rejected both times and the pusher is as
  before; submitted fourteen days after the epoch it is put on the channel. An event without
  a time is put on the channel by both entry points.
\<close>

theorem admission_witness:
  "\<not> hasValidTime \<lparr>ev_Message = ''m'', ev_Time = 0, ev_Done = 3\<rparr> (- 2 * Hour - 1) \<and>
   \<not> hasValidTime \<lparr>ev_Message = ''m'', ev_Time = 0, ev_Done = 3\<rparr> (24 * 14 * Hour + 1) \<and>
   AddEvent \<lparr>ev_Message = ''m'', ev_Time = 0, ev_Done = 3\<rparr> (24 * 14 * Hour + 1)
       (samplePusher []) = Some (samplePusher []) \<and>
   AddEventNonBlocking \<lparr>ev_Message = ''m'', ev_Time = 0, ev_Done = 3\<rparr> (- 2 * Hour - 1)
       (samplePusher []) = Some (samplePusher []) \<and>
   AddEvent \<lparr>ev_Message = ''m'', ev_Time = 0, ev_Done = 3\<rparr> (24 * 14 * Hour)
       (samplePusher [])
     = Some ((samplePusher [])\<lparr>eventsCh := [\<lparr>ev_Message = ''m'', ev_Time = 0, ev_Done = 3\<rparr>]\<rparr>) \<and>
   AddEvent \<lparr>ev_Message = ''z'', ev_Time = zeroInstant, ev_Done = 4\<rparr> 0 (samplePusher [])
     = Some ((samplePusher [])\<lparr>eventsCh :=
               [\<lparr>ev_Message = ''z'', ev_Time = zeroInstant, ev_Done = 4\<rparr>]\<rparr>) \<and>
   AddEventNonBlocking \<lparr>ev_Message = ''z'', ev_Time = zeroInstant, ev_Done = 4\<rparr> 0
       (samplePusher [])
     = Some ((samplePusher [])\<lparr>eventsCh :=
               [\<lparr>ev_Message = ''z'', ev_Time = zeroInstant, ev_Done = 4\<rparr>]\<rparr>)"
proof -
  let ?e = "\<lparr>ev_Message = ''m'', ev_Time = 0, ev_Done = 3\<rparr>"
  let ?z = "\<lparr>ev_Message = ''z'', ev_Time = zeroInstant, ev_Done = 4\<rparr>"
  let ?p = "samplePusher []"
  have z: "\<not> IsZero (ev_Time ?e)" by (simp add: IsZero_def zeroInstant_def)
  have room: "eventsCh ?p = []" "length (eventsCh ?p) < eventsChCap"
    by (simp_all add: samplePusher_def NewPusher_def eventsChCap_def)
  have early: "\<not> hasValidTime ?e (- 2 * Hour - 1)"
    using admission [of ?e "- 2 * Hour - 1", THEN conjunct2, THEN conjunct1] z
    by (simp add: Hour_def)
  have late: "\<not> hasValidTime ?e (24 * 14 * Hour + 1)"
    using admission [of ?e "24 * 14 * Hour + 1", THEN conjunct2, THEN conjunct1] z
    by (simp add: Hour_def)
  have edge: "hasValidTime ?e (24 * 14 * Hour)"
    using admission [of ?e "24 * 14 * Hour", THEN conjunct2, THEN conjunct1]
    by (simp add: Hour_def)
  have zero: "hasValidTime ?z 0"
    using admission [of ?z 0, THEN conjunct2, THEN conjunct1] by (simp add: IsZero_def)
  note rejects = admission [THEN conjunct2, THEN conjunct2, THEN conjunct2, THEN mp]
  note accepts = admission [THEN conjunct2, THEN conjunct2, THEN conjunct1, THEN mp]
  from rejects [OF late, of ?p] have a: "AddEvent ?e (24 * 14 * Hour + 1) ?p = Some ?p"
    by (rule conjunct1)
  from rejects [OF early, of ?p]
  have b: "AddEventNonBlocking ?e (- 2 * Hour - 1) ?p = Some ?p"
    by blast
  from accepts [OF edge, of ?p]
  have "AddEvent ?e (24 * 14 * Hour) ?p =
      (if length (eventsCh ?p) < eventsChCap then Some (?p\<lparr>eventsCh := eventsCh ?p @ [?e]\<rparr>)
       else None)"
    by (rule conjunct1)
  with room have c: "AddEvent ?e (24 * 14 * Hour) ?p = Some (?p\<lparr>eventsCh := [?e]\<rparr>)"
    by simp
  from accepts [OF zero, of ?p]
  have "AddEvent ?z 0 ?p =
      (if length (eventsCh ?p) < eventsChCap then Some (?p\<lparr>eventsCh := eventsCh ?p @ [?z]\<rparr>)
       else None)"
    by (rule conjunct1)
  with room have d: "AddEvent ?z 0 ?p = Some (?p\<lparr>eventsCh := [?z]\<rparr>)" by simp
  from accepts [OF zero, of ?p]
  have "length (eventsCh ?p) < eventsChCap \<longrightarrow>
      AddEventNonBlocking ?z 0 ?p = Some (?p\<lparr>eventsCh := eventsCh ?p @ [?z]\<rparr>)"
    by blast
  with room have e: "AddEventNonBlocking ?z 0 ?p = Some (?p\<lparr>eventsCh := [?z]\<rparr>)"
    by simp
  from early late a b c d e show ?thesis by (intro conjI)
qed

text \<open>
  C6. When \<open>PutLogEvents\<close> answers with an error that is not an AWS error, or with an AWS
  error that is neither \<open>ResourceNotFoundException\<close> nor
  \<open>InvalidSequenceTokenException\<close>, \<open>send\<close> returns with the buffer cleared (no events,
  no callbacks, zero bytes, no \<open>minT\<close> and \<open>maxT\<close>, \<open>needSort\<close> unset) and has run no
  callback.
\<close>

theorem send_unrecoverable:
  assumes "putLogEventsReplies (Service p) = Inl err # rs"
    and "err \<noteq> AwsError ResourceNotFoundException"
    and "\<forall>expected. err \<noteq> AwsError (InvalidSequenceTokenException expected)"
  shows "send p = Some (reset (afterPut p)) \<and>
         events (reset (afterPut p)) = [] \<and> doneCallbacks (reset (afterPut p)) = [] \<and>
         bufferredSize (reset (afterPut p)) = 0 \<and>
         minT (reset (afterPut p)) = None \<and> maxT (reset (afterPut p)) = None \<and>
         needSort (reset (afterPut p)) = False \<and>
         invoked (reset (afterPut p)) = invoked p"
proof -
  have "send p = Some (reset (afterPut p))"
  proof (cases err)
    case NonAwsError
    with assms(1) show ?thesis by (simp add: send_unfold)
  next
    case (AwsError a)
    with assms(2,3) obtain c where "a = OtherAwsError c" by (cases a) auto
    with AwsError assms(1) show ?thesis by (simp add: send_unfold)
  qed
  then show ?thesis by simp
qed

theorem send_unrecoverable_witness:
  "send (samplePusher [Inl (AwsError (OtherAwsError ''ThrottlingException''))]) =
     Some (reset (afterPut (samplePusher [Inl (AwsError (OtherAwsError ''ThrottlingException''))])))
   \<and> events (reset (afterPut
         (samplePusher [Inl (AwsError (OtherAwsError ''ThrottlingException''))]))) = []
   \<and> invoked (reset (afterPut
         (samplePusher [Inl (AwsError (OtherAwsError ''ThrottlingException''))]))) = []
   \<and> send (samplePusher [Inl NonAwsError]) = Some (reset (afterPut (samplePusher [Inl NonAwsError])))"
  using send_unrecoverable [of "samplePusher [Inl (AwsError (OtherAwsError ''ThrottlingException''))]"
      "AwsError (OtherAwsError ''ThrottlingException'')" "[]"]
    send_unrecoverable [of "samplePusher [Inl NonAwsError]" NonAwsError "[]"]
  by (simp add: samplePusher_def sampleService_def NewPusher_def)

text \<open>
  C7, as the code has it. Without an expected token \<open>send\<close> does not return with the buffer
  unchanged: \<open>sort.Stable\<close> has sorted the events in place before the request was made, and
  the callbacks stay where they were. The sample pusher holds the events stamped 2 and 1 with
  the callbacks 7 and 8; after \<open>send\<close> it holds the events stamped 1 and 2 with the
  callbacks 7 and 8.
\<close>

theorem send_invalid_sequence_token_counterexample:
  "map_option (\<lambda>q. (map Timestamp (events q), doneCallbacks q))
     (send (samplePusher [Inl (AwsError (InvalidSequenceTokenException None))]))
     = Some ([1, 2], [7, 8]) \<and>
   map Timestamp (events (samplePusher [Inl (AwsError (InvalidSequenceTokenException None))]))
     = [2, 1] \<and>
   doneCallbacks (samplePusher [Inl (AwsError (InvalidSequenceTokenException None))]) = [7, 8]"
  by (simp add: send.simps samplePusher_def sampleService_def NewPusher_def PutLogEvents_def
      sortEvents_def request_def Let_def)

text \<open>
  C7, amended. When \<open>PutLogEvents\<close> answers \<open>InvalidSequenceTokenException\<close> with an
  expected token, \<open>send\<close> stores the token and goes on as a new \<open>send\<close> whose request
  carries the same events and that token, with no other call to the sink in between. Without
  an expected token \<open>send\<close> returns; no callback has been run and no event is lost (the
  events are the same as a multiset); the events are those of the request, which is the
  buffer as it was when \<open>needSort\<close> is unset and the buffer stably sorted by timestamp when
  it is set; callbacks, bytes, \<open>minT\<close>, \<open>maxT\<close>, \<open>needSort\<close> and the stored token are
  as before.
\<close>

theorem send_invalid_sequence_token:
  assumes "putLogEventsReplies (Service p) =
             Inl (AwsError (InvalidSequenceTokenException expected)) # rs"
  shows "case expected of
           Some tok \<Rightarrow>
             send p = send ((afterPut p)\<lparr>sequenceToken := Some tok\<rparr>) \<and>
             request (sortEvents ((afterPut p)\<lparr>sequenceToken := Some tok\<rparr>))
               = (request (sortEvents p))\<lparr>SequenceToken := Some tok\<rparr> \<and>
             calls (Service ((afterPut p)\<lparr>sequenceToken := Some tok\<rparr>))
               = calls (Service p) @ [PutLogEventsCall (request (sortEvents p))] \<and>
             putLogEventsReplies (Service ((afterPut p)\<lparr>sequenceToken := Some tok\<rparr>)) = rs
         | None \<Rightarrow>
             send p = Some (afterPut p) \<and>
             events (afterPut p) = LogEvents (request (sortEvents p)) \<and>
             events (afterPut p)
               = (if needSort p then sort_key Timestamp (events p) else events p) \<and>
             mset (events (afterPut p)) = mset (events p) \<and>
             doneCallbacks (afterPut p) = doneCallbacks p \<and>
             bufferredSize (afterPut p) = bufferredSize p \<and>
             minT (afterPut p) = minT p \<and> maxT (afterPut p) = maxT p \<and>
             needSort (afterPut p) = needSort p \<and>
             sequenceToken (afterPut p) = sequenceToken p \<and>
             invoked (afterPut p) = invoked p"
proof (cases expected)
  case None
  with assms have "send p = Some (afterPut p)" by (simp add: send_unfold)
  moreover have "events (sortEvents p)
      = (if needSort p then sort_key Timestamp (events p) else events p)"
    by (simp add: sortEvents_def)
  ultimately show ?thesis using None by (simp add: request_def)
next
  case (Some tok)
  with assms have "send p = send ((afterPut p)\<lparr>sequenceToken := Some tok\<rparr>)"
    by (simp add: send_unfold)
  moreover have "sortEvents ((afterPut p)\<lparr>sequenceToken := Some tok\<rparr>)
      = (sortEvents (afterPut p))\<lparr>sequenceToken := Some tok\<rparr>"
    by (simp add: sortEvents_def)
  ultimately show ?thesis using Some assms by (simp add: request_def)
qed

text \<open>
  With the sample pusher (token \<open>t0\<close>, two events out of order): no expected token, and the
  pusher keeps both events, now sorted, and both callbacks; expected token \<open>t1\<close> and then
  success, and the sink has received the sorted events twice, first with \<open>t0\<close>, then with
  \<open>t1\<close>.
\<close>

theorem send_invalid_sequence_token_witness:
  "map_option (\<lambda>q. (map Timestamp (events q), doneCallbacks q, sequenceToken q, invoked q))
     (send (samplePusher [Inl (AwsError (InvalidSequenceTokenException None))]))
     = Some ([1, 2], [7, 8], Some ''t0'', []) \<and>
   map_option (\<lambda>q. (calls (Service q), invoked q))
     (send (samplePusher [Inl (AwsError (InvalidSequenceTokenException (Some ''t1''))),
                          Inr \<lparr>NextSequenceToken = None\<rparr>]))
     = Some ([PutLogEventsCall \<lparr>LogEvents = [\<lparr>Message = ''a'', Timestamp = 1\<rparr>,
                                                \<lparr>Message = ''b'', Timestamp = 2\<rparr>],
                 LogGroupName = ''g'', LogStreamName = ''s'', SequenceToken = Some ''t0''\<rparr>,
              PutLogEventsCall \<lparr>LogEvents = [\<lparr>Message = ''a'', Timestamp = 1\<rparr>,
                                                \<lparr>Message = ''b'', Timestamp = 2\<rparr>],
                 LogGroupName = ''g'', LogStreamName = ''s'', SequenceToken = Some ''t1''\<rparr>],
             [7, 8])"
proof -
  let ?none = "samplePusher [Inl (AwsError (InvalidSequenceTokenException None))]"
  let ?some = "samplePusher [Inl (AwsError (InvalidSequenceTokenException (Some ''t1''))),
                             Inr \<lparr>NextSequenceToken = None\<rparr>]"
  have "send ?none = Some (afterPut ?none)"
    using send_invalid_sequence_token [of ?none None "[]"]
    by (simp add: samplePusher_def sampleService_def NewPusher_def)
  then have a: "map_option (\<lambda>q. (map Timestamp (events q), doneCallbacks q, sequenceToken q,
      invoked q)) (send ?none) = Some ([1, 2], [7, 8], Some ''t0'', [])"
    by (simp add: samplePusher_def sampleService_def NewPusher_def sortEvents_def)
  have "send ?some = send ((afterPut ?some)\<lparr>sequenceToken := Some ''t1''\<rparr>)"
    using send_invalid_sequence_token [of ?some "Some ''t1''" "[Inr \<lparr>NextSequenceToken = None\<rparr>]"]
    by (simp add: samplePusher_def sampleService_def NewPusher_def)
  also have "\<dots> = Some (reset ((afterPut ((afterPut ?some)\<lparr>sequenceToken := Some ''t1''\<rparr>))
      \<lparr>invoked := [7, 8]\<rparr>))"
    by (subst send_unfold [where r = "Inr \<lparr>NextSequenceToken = None\<rparr>" and rs = "[]"])
       (simp_all add: samplePusher_def sampleService_def NewPusher_def)
  finally have "send ?some = Some (reset ((afterPut ((afterPut ?some)
      \<lparr>sequenceToken := Some ''t1''\<rparr>))\<lparr>invoked := [7, 8]\<rparr>))" .
  then have b: "map_option (\<lambda>q. (calls (Service q), invoked q)) (send ?some)
     = Some ([PutLogEventsCall \<lparr>LogEvents = [\<lparr>Message = ''a'', Timestamp = 1\<rparr>,
                                                \<lparr>Message = ''b'', Timestamp = 2\<rparr>],
                 LogGroupName = ''g'', LogStreamName = ''s'', SequenceToken = Some ''t0''\<rparr>,
              PutLogEventsCall \<lparr>LogEvents = [\<lparr>Message = ''a'', Timestamp = 1\<rparr>,
                                                \<lparr>Message = ''b'', Timestamp = 2\<rparr>],
                 LogGroupName = ''g'', LogStreamName = ''s'', SequenceToken = Some ''t1''\<rparr>],
             [7, 8])"
    by (simp add: samplePusher_def sampleService_def NewPusher_def sortEvents_def request_def)
  from a b show ?thesis by (rule conjI)
qed

text \<open>
  C10. When \<open>PutLogEvents\<close> answers \<open>ResourceNotFoundException\<close> and the creation of the
  group and the stream succeeds, \<open>send\<close> goes on as a new \<open>send\<close> from a pusher whose
  stored token is the one of the failed attempt; the request of the retry equals the request of
  the failed attempt (same events, same token), and callbacks, bytes and \<open>needSort\<close> are as
  before. The events going into the retry are those of the failed request.
\<close>

theorem send_resource_not_found_retry:
  assumes "putLogEventsReplies (Service p) = Inl (AwsError ResourceNotFoundException) # rs"
    and "createLogGroupAndStream (afterPut p) = Some (None, p')"
  shows "send p = send p' \<and>
         sequenceToken p' = sequenceToken p \<and>
         request (sortEvents p') = request (sortEvents p) \<and>
         events p' = LogEvents (request (sortEvents p)) \<and>
         mset (events p') = mset (events p) \<and>
         doneCallbacks p' = doneCallbacks p \<and>
         bufferredSize p' = bufferredSize p \<and>
         needSort p' = needSort p \<and>
         putLogEventsReplies (Service p') = rs"
proof -
  from assms have run: "send p = send p'" by (simp add: send_unfold)
  from assms(2) have frame: "p' = (afterPut p)\<lparr>Service := Service p'\<rparr>"
    and replies: "putLogEventsReplies (Service p') = putLogEventsReplies (Service (afterPut p))"
    by (rule createLogGroupAndStream_frame)+
  have fields: "sequenceToken p' = sequenceToken p" "events p' = events (sortEvents p)"
    "doneCallbacks p' = doneCallbacks p" "bufferredSize p' = bufferredSize p"
    "needSort p' = needSort p" "Group p' = Group p" "Stream p' = Stream p"
    by (subst frame, simp)+
  have "events (sortEvents p') = events (sortEvents p)"
    using fields by (simp add: sortEvents_def sort_key_id_if_sorted)
  with fields have "request (sortEvents p') = request (sortEvents p)"
    by (simp add: request_def)
  with run fields replies assms(1) show ?thesis by (simp add: request_def)
qed

text \<open>
  The sample pusher with token \<open>t0\<close>: resource not found, both creations succeed, then
  success. The sink has received the same request twice, with the two creations in between.
\<close>

theorem send_resource_not_found_retry_witness:
  "map_option (\<lambda>q. (calls (Service q), invoked q))
     (send (samplePusher [Inl (AwsError ResourceNotFoundException),
                          Inr \<lparr>NextSequenceToken = None\<rparr>]))
     = Some ([PutLogEventsCall \<lparr>LogEvents = [\<lparr>Message = ''a'', Timestamp = 1\<rparr>,
                                                \<lparr>Message = ''b'', Timestamp = 2\<rparr>],
                 LogGroupName = ''g'', LogStreamName = ''s'', SequenceToken = Some ''t0''\<rparr>,
              CreateLogGroupCall ''g'', CreateLogStreamCall ''g'' ''s'',
              PutLogEventsCall \<lparr>LogEvents = [\<lparr>Message = ''a'', Timestamp = 1\<rparr>,
                                                \<lparr>Message = ''b'', Timestamp = 2\<rparr>],
                 LogGroupName = ''g'', LogStreamName = ''s'', SequenceToken = Some ''t0''\<rparr>],
             [7, 8])"
proof -
  let ?p = "samplePusher [Inl (AwsError ResourceNotFoundException),
                          Inr \<lparr>NextSequenceToken = None\<rparr>]"
  let ?p' = "(afterPut ?p)\<lparr>Service := (Service (afterPut ?p))\<lparr>
      createLogGroupReplies := [], createLogStreamReplies := [],
      calls := calls (Service (afterPut ?p)) @ [CreateLogGroupCall ''g'', CreateLogStreamCall ''g'' ''s'']\<rparr>\<rparr>"
  have created: "createLogGroupAndStream (afterPut ?p) = Some (None, ?p')"
    by (simp add: createLogGroupAndStream_def CreateLogGroup_def CreateLogStream_def afterPut_def
        samplePusher_def sampleService_def NewPusher_def sortEvents_def)
  have "send ?p = send ?p'"
    using send_resource_not_found_retry [of ?p "[Inr \<lparr>NextSequenceToken = None\<rparr>]" ?p'] created
    by (simp add: samplePusher_def sampleService_def NewPusher_def)
  also have "\<dots> = Some (reset ((afterPut ?p')\<lparr>invoked := [7, 8]\<rparr>))"
    by (subst send_unfold [where r = "Inr \<lparr>NextSequenceToken = None\<rparr>" and rs = "[]"])
       (simp_all add: samplePusher_def sampleService_def NewPusher_def)
  finally show ?thesis
    by (simp add: samplePusher_def sampleService_def NewPusher_def sortEvents_def request_def)
qed

text \<open>
  The loop left alone: \<open>AddEventNonBlocking\<close>, called with an admitted event while the
  channel holds its 100 events, and with no other goroutine touching the channel meanwhile,
  returns: the oldest event has left the channel, the new event is its newest, the channel is
  full again, and nothing else of the pusher has changed; in particular no callback has been
  run and the sink has not been called.
\<close>

theorem AddEventNonBlocking_full:
  assumes "hasValidTime e now" and "length (eventsCh p) = eventsChCap"
  shows "AddEventNonBlocking e now p = Some (p\<lparr>eventsCh := tl (eventsCh p) @ [e]\<rparr>) \<and>
         length (tl (eventsCh p) @ [e]) = eventsChCap \<and>
         last (tl (eventsCh p) @ [e]) = e \<and>
         invoked (p\<lparr>eventsCh := tl (eventsCh p) @ [e]\<rparr>) = invoked p \<and>
         Service (p\<lparr>eventsCh := tl (eventsCh p) @ [e]\<rparr>) = Service p"
proof -
  from assms(2) have "drain e (eventsCh p) = Some (tl (eventsCh p) @ [e])"
    by (rule drain_full)
  with assms(1)
  have "AddEventNonBlocking e now p = Some (p\<lparr>eventsCh := tl (eventsCh p) @ [e]\<rparr>)"
    by (simp add: AddEventNonBlocking_def)
  moreover from assms(2) have "length (tl (eventsCh p) @ [e]) = eventsChCap"
    by (simp add: eventsChCap_def)
  ultimately show ?thesis by simp
qed

text \<open>
  A channel holding event 0 followed by 99 copies of event 1; event 2 is submitted. Event 0
  is gone, event 2 is last.
\<close>

theorem AddEventNonBlocking_full_witness:
  "map_option (\<lambda>q. (map ev_Done (eventsCh q), invoked q))
     (AddEventNonBlocking \<lparr>ev_Message = ''new'', ev_Time = 5, ev_Done = 2\<rparr> 5
        ((samplePusher [])\<lparr>eventsCh :=
            \<lparr>ev_Message = ''old'', ev_Time = 1, ev_Done = 0\<rparr>
              # replicate 99 \<lparr>ev_Message = ''mid'', ev_Time = 2, ev_Done = 1\<rparr>\<rparr>))
     = Some (replicate 99 1 @ [2], [])"
proof -
  let ?e = "\<lparr>ev_Message = ''new'', ev_Time = 5, ev_Done = 2\<rparr>"
  let ?p = "(samplePusher [])\<lparr>eventsCh :=
            \<lparr>ev_Message = ''old'', ev_Time = 1, ev_Done = 0\<rparr>
              # replicate 99 \<lparr>ev_Message = ''mid'', ev_Time = 2, ev_Done = 1\<rparr>\<rparr>"
  have valid: "hasValidTime ?e 5"
    by (simp add: hasValidTime_exact Hour_def)
  have full: "length (eventsCh ?p) = eventsChCap"
    by (simp add: eventsChCap_def)
  from AddEventNonBlocking_full [OF valid full] show ?thesis
    by (simp add: samplePusher_def NewPusher_def)
qed

text \<open>
  C8 does not hold on the code: the submitted event is not always enqueued. The channel holds
  its 100 events and an admitted event is submitted. The \<open>select\<close> finds the channel full
  and takes the \<open>default\<close> branch; before the receive of that branch runs, the dispatcher
  receives the 100 events. The receive now waits on an empty channel: with nobody else
  sending, the call never returns and the event is never enqueued. If another producer then
  sends an event, the waiting receive takes it, so that event is discarded although the
  channel was not full, and only then is the submitted event enqueued. Left alone, the same
  call returns with the submitted event last.
\<close>

theorem AddEventNonBlocking_parked:
  "hasValidTime \<lparr>ev_Message = ''new'', ev_Time = 5, ev_Done = 2\<rparr> 5 \<and>
   length (replicate 100 \<lparr>ev_Message = ''old'', ev_Time = 4, ev_Done = 3\<rparr>) = eventsChCap \<and>
   AddEventNonBlockingAmong [[], replicate 100 DispatcherReceives]
       \<lparr>ev_Message = ''new'', ev_Time = 5, ev_Done = 2\<rparr> 5
       (replicate 100 \<lparr>ev_Message = ''old'', ev_Time = 4, ev_Done = 3\<rparr>) = None \<and>
   AddEventNonBlockingAmong
       [[], replicate 100 DispatcherReceives,
        [ProducerSends \<lparr>ev_Message = ''other'', ev_Time = 5, ev_Done = 4\<rparr>]]
       \<lparr>ev_Message = ''new'', ev_Time = 5, ev_Done = 2\<rparr> 5
       (replicate 100 \<lparr>ev_Message = ''old'', ev_Time = 4, ev_Done = 3\<rparr>)
     = Some [\<lparr>ev_Message = ''new'', ev_Time = 5, ev_Done = 2\<rparr>] \<and>
   AddEventNonBlockingAmong [] \<lparr>ev_Message = ''new'', ev_Time = 5, ev_Done = 2\<rparr> 5
       (replicate 100 \<lparr>ev_Message = ''old'', ev_Time = 4, ev_Done = 3\<rparr>)
     = Some (replicate 99 \<lparr>ev_Message = ''old'', ev_Time = 4, ev_Done = 3\<rparr>
             @ [\<lparr>ev_Message = ''new'', ev_Time = 5, ev_Done = 2\<rparr>])"
proof -
  let ?e = "\<lparr>ev_Message = ''new'', ev_Time = 5, ev_Done = 2\<rparr>"
  let ?ch = "replicate 100 \<lparr>ev_Message = ''old'', ev_Time = 4, ev_Done = 3\<rparr>"
  have valid: "hasValidTime ?e 5" by (simp add: hasValidTime_exact Hour_def)
  have full: "length ?ch = eventsChCap" by (simp add: eventsChCap_def)
  have parked: "nonBlockingLoop AtSelect ?e [[], replicate 100 DispatcherReceives] ?ch = None"
    by (simp add: receives_drop eventsChCap_def)
  have stolen: "nonBlockingLoop AtSelect ?e
       [[], replicate 100 DispatcherReceives,
        [ProducerSends \<lparr>ev_Message = ''other'', ev_Time = 5, ev_Done = 4\<rparr>]] ?ch = Some [?e]"
    by (simp add: receives_drop drain_room eventsChCap_def)
  have alone: "nonBlockingLoop AtSelect ?e [] ?ch
      = Some (replicate 99 \<lparr>ev_Message = ''old'', ev_Time = 4, ev_Done = 3\<rparr> @ [?e])"
    using drain_full [OF full, of ?e] by simp
  from valid full parked stolen alone show ?thesis
    by (simp add: AddEventNonBlockingAmong_def)
qed

text \<open>
  C9. Provided the suffix is not longer than \<open>msgSizeLimit\<close> (Go would not compile the slice
  bound otherwise), the wire message is the event's message when that has at most
  \<open>msgSizeLimit\<close> bytes, and otherwise its first \<open>msgSizeLimit - len(truncatedSuffix)\<close>
  bytes followed by the suffix; the truncated message has exactly \<open>msgSizeLimit\<close> bytes and
  ends with the suffix.
\<close>

theorem convertEvent_message:
  assumes "length (truncatedSuffix K) \<le> msgSizeLimit K"
  shows "Message (fst (convertEvent K e now p)) =
           (if length (ev_Message e) \<le> msgSizeLimit K then ev_Message e
            else take (msgSizeLimit K - length (truncatedSuffix K)) (ev_Message e)
                   @ truncatedSuffix K) \<and>
         (if length (ev_Message e) \<le> msgSizeLimit K then True
          else length (Message (fst (convertEvent K e now p))) = msgSizeLimit K \<and>
               drop (msgSizeLimit K - length (truncatedSuffix K))
                 (Message (fst (convertEvent K e now p))) = truncatedSuffix K)"
proof -
  have msg: "Message (fst (convertEvent K e now p)) =
           (if length (ev_Message e) \<le> msgSizeLimit K then ev_Message e
            else take (msgSizeLimit K - length (truncatedSuffix K)) (ev_Message e)
                   @ truncatedSuffix K)"
    by (simp add: convertEvent_def Let_def)
  show ?thesis
  proof (cases "length (ev_Message e) \<le> msgSizeLimit K")
    case True
    with msg show ?thesis by simp
  next
    case False
    with assms have "length (take (msgSizeLimit K - length (truncatedSuffix K)) (ev_Message e)
        @ truncatedSuffix K) = msgSizeLimit K" by simp
    with False msg show ?thesis by simp
  qed
qed

text \<open>With a limit of 8 bytes and the suffix \<open>...\<close>, ten bytes become five and the suffix,
  eight bytes stay.\<close>

theorem convertEvent_message_witness:
  "Message (fst (convertEvent \<lparr>msgSizeLimit = 8, truncatedSuffix = ''...'', eventHeaderSize = 26\<rparr>
       \<lparr>ev_Message = ''0123456789'', ev_Time = 5, ev_Done = 2\<rparr> 5 (samplePusher [])))
     = ''01234...'' \<and>
   Message (fst (convertEvent \<lparr>msgSizeLimit = 8, truncatedSuffix = ''...'', eventHeaderSize = 26\<rparr>
       \<lparr>ev_Message = ''01234567'', ev_Time = 5, ev_Done = 2\<rparr> 5 (samplePusher [])))
     = ''01234567''"
  using convertEvent_message [of "\<lparr>msgSizeLimit = 8, truncatedSuffix = ''...'', eventHeaderSize = 26\<rparr>"
      "\<lparr>ev_Message = ''0123456789'', ev_Time = 5, ev_Done = 2\<rparr>" 5 "samplePusher []"]
    convertEvent_message [of "\<lparr>msgSizeLimit = 8, truncatedSuffix = ''...'', eventHeaderSize = 26\<rparr>"
      "\<lparr>ev_Message = ''01234567'', ev_Time = 5, ev_Done = 2\<rparr>" 5 "samplePusher []"]
  by simp

text \<open>
  C3, as the code has it. The claim says the wire timestamp of an event with a time is the
  floor of that time in milliseconds; Go's integer division truncates towards zero, so for an
  instant before the epoch the code gives the next millisecond towards zero. The counterexample
  is the instant half a millisecond before the epoch: timestamp 0, floor -1 (\<open>div\<close> on
  \<open>int\<close> is the floor).
\<close>

theorem convertEvent_timestamp_counterexample:
  "\<not> IsZero (ev_Time \<lparr>ev_Message = ''m'', ev_Time = - 500000, ev_Done = 1\<rparr>) \<and>
   Timestamp (fst (convertEvent \<lparr>msgSizeLimit = 262144, truncatedSuffix = ''[Truncated...]'',
                                  eventHeaderSize = 26\<rparr>
       \<lparr>ev_Message = ''m'', ev_Time = - 500000, ev_Done = 1\<rparr> 0
       (NewPusher ''g'' ''s'' (sampleService [])))) = 0 \<and>
   ev_Time \<lparr>ev_Message = ''m'', ev_Time = - 500000, ev_Done = 1\<rparr> div 1000000 = - 1"
  by (simp add: IsZero_def zeroInstant_def convertEvent_def Let_def UnixNano_def int64_def
      signed_divide_int_def NewPusher_def)

text \<open>
  C3, amended. For a pusher that started with \<open>lastValidTime = 0\<close> and has converted the
  events of \<open>h\<close>: an event with a time gets \<open>UnixNano\<close> of its time divided by 1000000
  with truncation towards zero, which is the floor for an instant from the epoch on that
  int64 nanoseconds can hold, and that value is stored as \<open>lastValidTime\<close>. An event
  without a time gets the clock's milliseconds when no event of \<open>h\<close> had a time, and gets
  \<open>lastValidTime\<close>, the milliseconds of the last event of \<open>h\<close> that had a time, when
  that is not 0; \<open>lastValidTime\<close> stays as it is. (When the last event with a time had
  millisecond 0 the statement says nothing.)
\<close>

theorem convertEvent_timestamp:
  assumes "lastValidTime p0 = 0" and "p = convertAll K h p0"
  shows "(if IsZero (ev_Time e) then
            (if validTimes h = [] then
               Timestamp (fst (convertEvent K e now p)) = UnixNano now sdiv 1000000
             else if lastValidTime p \<noteq> 0 then
               Timestamp (fst (convertEvent K e now p)) = lastValidTime p \<and>
               lastValidTime p = UnixNano (last (validTimes h)) sdiv 1000000
             else True) \<and>
            lastValidTime (snd (convertEvent K e now p)) = lastValidTime p
          else
            Timestamp (fst (convertEvent K e now p)) = UnixNano (ev_Time e) sdiv 1000000 \<and>
            lastValidTime (snd (convertEvent K e now p)) = UnixNano (ev_Time e) sdiv 1000000 \<and>
            (if 0 \<le> ev_Time e \<and> ev_Time e < 2 ^ 63
             then Timestamp (fst (convertEvent K e now p)) = ev_Time e div 1000000
             else True))"
proof (cases "IsZero (ev_Time e)")
  case True
  have lv: "lastValidTime p =
     (if validTimes h = [] then 0 else UnixNano (last (validTimes h)) sdiv 1000000)"
    using assms by (simp add: lastValidTime_convertAll)
  show ?thesis
  proof (cases "validTimes h = []")
    case none: True
    with lv have "lastValidTime p = 0" by simp
    with True none show ?thesis by (simp add: convertEvent_def Let_def)
  next
    case some: False
    with lv have "lastValidTime p = UnixNano (last (validTimes h)) sdiv 1000000" by simp
    with True some show ?thesis by (simp add: convertEvent_def Let_def)
  qed
next
  case False
  have ts: "Timestamp (fst (convertEvent K e now p)) = UnixNano (ev_Time e) sdiv 1000000"
    and lv: "lastValidTime (snd (convertEvent K e now p)) = UnixNano (ev_Time e) sdiv 1000000"
    using False by (simp_all add: convertEvent_def Let_def)
  have "Timestamp (fst (convertEvent K e now p)) = ev_Time e div 1000000"
    if "0 \<le> ev_Time e" and "ev_Time e < 2 ^ 63"
    using that ts by (simp add: UnixNano_def int64_id sdiv_nonneg)
  with False ts lv show ?thesis by simp
qed

text \<open>
  After an event stamped 1234567890 ns, an event without a time gets 1234; on a fresh pusher
  it gets the clock, 7 ms; the event with a time stores 1234.
\<close>

theorem convertEvent_timestamp_witness:
  "Timestamp (fst (convertEvent sampleK \<lparr>ev_Message = ''z'', ev_Time = zeroInstant, ev_Done = 6\<rparr>
       7000000
       (convertAll sampleK [(\<lparr>ev_Message = ''v'', ev_Time = 1234567890, ev_Done = 5\<rparr>, 0)]
          (NewPusher ''g'' ''s'' (sampleService []))))) = 1234 \<and>
   Timestamp (fst (convertEvent sampleK \<lparr>ev_Message = ''z'', ev_Time = zeroInstant, ev_Done = 6\<rparr>
       7000000 (convertAll sampleK [] (NewPusher ''g'' ''s'' (sampleService []))))) = 7 \<and>
   lastValidTime (snd (convertEvent sampleK
       \<lparr>ev_Message = ''v'', ev_Time = 1234567890, ev_Done = 5\<rparr> 0
       (convertAll sampleK [] (NewPusher ''g'' ''s'' (sampleService []))))) = 1234"
proof -
  let ?p0 = "NewPusher ''g'' ''s'' (sampleService [])"
  let ?v = "\<lparr>ev_Message = ''v'', ev_Time = 1234567890, ev_Done = 5\<rparr>"
  let ?z = "\<lparr>ev_Message = ''z'', ev_Time = zeroInstant, ev_Done = 6\<rparr>"
  have p0: "lastValidTime ?p0 = 0" by (simp add: NewPusher_def)
  have ms: "UnixNano 1234567890 sdiv 1000000 = 1234" "UnixNano 7000000 sdiv 1000000 = 7"
    by (simp_all add: UnixNano_def int64_def signed_divide_int_def)
  have vt: "validTimes [(?v, 0)] = [1234567890]" "validTimes [] = []"
    by (simp_all add: validTimes_def IsZero_def zeroInstant_def)
  have lv: "lastValidTime (convertAll sampleK [(?v, 0)] ?p0) = 1234"
    by (simp add: lastValidTime_convertEvent ms IsZero_def zeroInstant_def)
  have a: "Timestamp (fst (convertEvent sampleK ?z 7000000 (convertAll sampleK [(?v, 0)] ?p0)))
      = 1234"
    using convertEvent_timestamp [of ?p0 "convertAll sampleK [(?v, 0)] ?p0" sampleK "[(?v, 0)]"
        ?z 7000000, OF p0 refl] lv
    by (simp add: vt IsZero_def del: convertAll.simps)
  have b: "Timestamp (fst (convertEvent sampleK ?z 7000000 (convertAll sampleK [] ?p0))) = 7"
    using convertEvent_timestamp [of ?p0 "convertAll sampleK [] ?p0" sampleK "[]" ?z 7000000,
        OF p0 refl]
    by (simp add: vt ms IsZero_def del: convertAll.simps)
  have c: "lastValidTime (snd (convertEvent sampleK ?v 0 (convertAll sampleK [] ?p0))) = 1234"
    using convertEvent_timestamp [of ?p0 "convertAll sampleK [] ?p0" sampleK "[]" ?v 0,
        OF p0 refl]
    by (simp add: ms IsZero_def zeroInstant_def del: convertAll.simps)
  from a b c show ?thesis by simp
qed

text \<open>
  C4. In every execution from a new pusher, every \<open>PutLogEvents\<close> request that the sink has
  received is in non-decreasing order of timestamp. At every state reached: unless
  \<open>needSort\<close> is set, the buffer is in non-decreasing order as it stands; the request
  \<open>send\<close> builds holds the buffer sorted by \<open>sort_key Timestamp\<close> when \<open>needSort\<close> is
  set and the buffer itself otherwise; it is in non-decreasing order, and events of equal
  timestamp keep their order (the sort is stable); and an append leaves \<open>needSort\<close> set
  exactly when it was set or the new timestamp is strictly below that of the last event.
\<close>

theorem putLogEvents_sorted:
  assumes "calls svc = []" and "start K sched (NewPusher g s svc) = Some p"
  shows "list_all sortedCall (calls (Service p)) \<and>
         (needSort p \<or> sorted (map Timestamp (events p))) \<and>
         LogEvents (request (sortEvents p))
           = (if needSort p then sort_key Timestamp (events p) else events p) \<and>
         sorted (map Timestamp (LogEvents (request (sortEvents p)))) \<and>
         (\<forall>k. filter (\<lambda>y. Timestamp y = k) (LogEvents (request (sortEvents p)))
               = filter (\<lambda>y. Timestamp y = k) (events p)) \<and>
         (\<forall>e ce sz. needSort (append_event e ce sz p)
               = (needSort p \<or>
                  (length (events p) > 0 \<and> Timestamp ce < Timestamp (last (events p)))))"
proof -
  from assms(1) have "ordered (NewPusher g s svc)" by (rule ordered_NewPusher)
  then have o: "ordered p" using assms(2) by (rule start_ordered)
  then have inv: "needSort p \<or> sorted (map Timestamp (events p))"
    and cs: "list_all sortedCall (calls (Service p))"
    by (simp_all add: ordered_def)
  have req: "LogEvents (request (sortEvents p))
           = (if needSort p then sort_key Timestamp (events p) else events p)"
    by (simp add: request_def sortEvents_def)
  from inv have srt: "sorted (map Timestamp (LogEvents (request (sortEvents p))))"
    by (auto simp: req)
  have stable: "filter (\<lambda>y. Timestamp y = k) (LogEvents (request (sortEvents p)))
               = filter (\<lambda>y. Timestamp y = k) (events p)" for k
    by (simp add: req sort_key_stable)
  from cs inv req srt stable show ?thesis by (simp add: append_event_fields)
qed

text \<open>
  Events stamped 3, 1 and 2 ms are submitted and received in that order, then the timer
  fires: one request, in the order 1, 2, 3; the callbacks run in the stored order.
\<close>

theorem putLogEvents_sorted_witness:
  "map_option (\<lambda>q. (calls (Service q), invoked q))
     (start sampleK
        [CallAddEvent \<lparr>ev_Message = ''c'', ev_Time = 3000000, ev_Done = 30\<rparr> 3000000,
         CallAddEvent \<lparr>ev_Message = ''a'', ev_Time = 1000000, ev_Done = 10\<rparr> 3000000,
         CallAddEvent \<lparr>ev_Message = ''b'', ev_Time = 2000000, ev_Done = 20\<rparr> 3000000,
         RecvEvent 3000000, RecvEvent 3000000, RecvEvent 3000000, TimerFires]
        (NewPusher ''g'' ''s'' (sampleService [Inr \<lparr>NextSequenceToken = Some ''t1''\<rparr>])))
   = Some ([PutLogEventsCall \<lparr>LogEvents = [\<lparr>Message = ''a'', Timestamp = 1\<rparr>,
               \<lparr>Message = ''b'', Timestamp = 2\<rparr>, \<lparr>Message = ''c'', Timestamp = 3\<rparr>],
               LogGroupName = ''g'', LogStreamName = ''s'', SequenceToken = None\<rparr>],
            [30, 10, 20]) \<and>
   list_all sortedCall (calls (Service (the
     (start sampleK
        [CallAddEvent \<lparr>ev_Message = ''c'', ev_Time = 3000000, ev_Done = 30\<rparr> 3000000,
         CallAddEvent \<lparr>ev_Message = ''a'', ev_Time = 1000000, ev_Done = 10\<rparr> 3000000,
         CallAddEvent \<lparr>ev_Message = ''b'', ev_Time = 2000000, ev_Done = 20\<rparr> 3000000,
         RecvEvent 3000000, RecvEvent 3000000, RecvEvent 3000000, TimerFires]
        (NewPusher ''g'' ''s'' (sampleService [Inr \<lparr>NextSequenceToken = Some ''t1''\<rparr>]))))))"
proof -
  let ?run = "start sampleK
        [CallAddEvent \<lparr>ev_Message = ''c'', ev_Time = 3000000, ev_Done = 30\<rparr> 3000000,
         CallAddEvent \<lparr>ev_Message = ''a'', ev_Time = 1000000, ev_Done = 10\<rparr> 3000000,
         CallAddEvent \<lparr>ev_Message = ''b'', ev_Time = 2000000, ev_Done = 20\<rparr> 3000000,
         RecvEvent 3000000, RecvEvent 3000000, RecvEvent 3000000, TimerFires]
        (NewPusher ''g'' ''s'' (sampleService [Inr \<lparr>NextSequenceToken = Some ''t1''\<rparr>]))"
  have ev: "map_option (\<lambda>q. (calls (Service q), invoked q)) ?run
   = Some ([PutLogEventsCall \<lparr>LogEvents = [\<lparr>Message = ''a'', Timestamp = 1\<rparr>,
               \<lparr>Message = ''b'', Timestamp = 2\<rparr>, \<lparr>Message = ''c'', Timestamp = 3\<rparr>],
               LogGroupName = ''g'', LogStreamName = ''s'', SequenceToken = None\<rparr>],
            [30, 10, 20])"
    by (simp add: run_defs)
  then obtain p where p: "?run = Some p" by (cases ?run) auto
  have "calls (sampleService [Inr \<lparr>NextSequenceToken = Some ''t1''\<rparr>]) = []"
    by (simp add: sampleService_def)
  from putLogEvents_sorted [OF this p] have "list_all sortedCall (calls (Service p))"
    by (rule conjunct1)
  with ev p show ?thesis by simp
qed

text \<open>
  C1 does not hold on the code. Four events of 250000 bytes are buffered (1000104 bytes). The
  fifth would pass \<open>reqSizeLimit\<close>, so \<open>start\<close> calls \<open>send\<close>; the sink answers
  \<open>InvalidSequenceTokenException\<close> without an expected token, \<open>send\<close> returns with the
  buffer kept, and \<open>start\<close> appends the fifth event all the same: 5 events, 1250130 bytes,
  above \<open>reqSizeLimit\<close> = 1048576. At shutdown \<open>send\<close> calls \<open>PutLogEvents\<close> with
  these 1250130 bytes.
\<close>

theorem size_bound_broken_after_retained_send:
  "map_option (\<lambda>q. (bufferredSize q, length (events q), reqSizeLimit < bufferredSize q,
                     map (requestBytes sampleK) (calls (Service q))))
     (start sampleK fiveBigEvents
        (NewPusher ''g'' ''s'' (sampleService
           [Inl (AwsError (InvalidSequenceTokenException None)),
            Inr \<lparr>NextSequenceToken = None\<rparr>])))
     = Some (1250130, 5, True, [1000104]) \<and>
   map_option (\<lambda>q. (map (requestBytes sampleK) (calls (Service q)), invoked q))
     (start sampleK (fiveBigEvents @ [CtxDone])
        (NewPusher ''g'' ''s'' (sampleService
           [Inl (AwsError (InvalidSequenceTokenException None)),
            Inr \<lparr>NextSequenceToken = None\<rparr>])))
     = Some ([1000104, 1250130], [11, 12, 13, 14, 15])"
  by (simp add: fiveBigEvents_def bigEvent_def run_defs)

text \<open>
  C2 does not hold on the code. One event is buffered; the timer fires, the sink answers
  \<open>InvalidSequenceTokenException\<close> without an expected token and the buffer is kept. An
  event stamped 25 hours later arrives: \<open>start\<close> calls \<open>send\<close>, which fails the same
  way, and appends the event all the same. Now \<open>maxT - minT\<close> is 25 hours, and at shutdown
  \<open>PutLogEvents\<close> is called with both events, 90000000 ms apart.
\<close>

theorem span_bound_broken_after_retained_send:
  "map_option (\<lambda>q. (minT q, maxT q, length (events q),
                     map requestTimestamps (calls (Service q))))
     (start sampleK twoDistantEvents
        (NewPusher ''g'' ''s'' (sampleService
           [Inl (AwsError (InvalidSequenceTokenException None)),
            Inl (AwsError (InvalidSequenceTokenException None)),
            Inr \<lparr>NextSequenceToken = None\<rparr>])))
     = Some (Some 1700000000000000000, Some (1700000000000000000 + 25 * Hour), 2,
             [[1700000000000], [1700000000000]]) \<and>
   map_option (\<lambda>q. (map requestTimestamps (calls (Service q)), invoked q))
     (start sampleK (twoDistantEvents @ [CtxDone])
        (NewPusher ''g'' ''s'' (sampleService
           [Inl (AwsError (InvalidSequenceTokenException None)),
            Inl (AwsError (InvalidSequenceTokenException None)),
            Inr \<lparr>NextSequenceToken = None\<rparr>])))
     = Some ([[1700000000000], [1700000000000], [1700000000000, 1700090000000]], [10, 20]) \<and>
   24 * Hour < Sub (1700000000000000000 + 25 * Hour) 1700000000000000000"
  by (simp add: twoDistantEvents_def run_defs)

end
